theory Spec2Isabelle
  imports Main
begin

section \<open>Training an agent on a substituted reward while recording the true one\<close>

text \<open>
  The development embeds \<^verbatim>\<open>src/imitation/policies/trainer.py\<close> (class
  \<^verbatim>\<open>AgentTrainer\<close>). Python objects live in a store; a reference is the address of an
  object, so that two handles are the same object exactly when the references are equal.
  Every operation takes the store and returns a result together with the new store; a
  raised exception is the left injection of the result.
\<close>

type_synonym ref = nat

datatype exn =
    ValueError string
  | AttributeError
  | RecursionError
  | AssertionError
  | Exception nat

subsection \<open>Batches, transitions and trajectories\<close>

text \<open>
  What a vectorized environment returns from one step: the observations, rewards, done
  flags and info records of its sub-environments, as parallel lists.
\<close>

record ('o, 'r, 'i) step_result =
  obs :: "'o list"
  rews :: "'r list"
  dones :: "bool list"
  infos :: "'i list"

text \<open>
  The transitions of one step, one per sub-environment: observation, action, reward and
  info record, each paired with its done flag. Parallel lists of different lengths are cut
  to their common prefix, as Python's \<^verbatim>\<open>zip\<close> does.
\<close>

type_synonym ('o, 'a, 'r, 'i) transition = "'o \<times> 'a \<times> 'r \<times> 'i"

definition transitions ::
  "'a list \<Rightarrow> ('o, 'r, 'i) step_result \<Rightarrow> (('o, 'a, 'r, 'i) transition \<times> bool) list" where
  "transitions acts res =
     zip (zip (obs res) (zip acts (zip (rews res) (infos res)))) (dones res)"

text \<open>
  A finalized trajectory. \<open>traj_id\<close> stands for the identity of the Python object: the
  buffer numbers the trajectories it finalizes, and the number is never reused.
\<close>

record ('o, 'a, 'r, 'i) trajectory =
  traj_id :: nat
  steps :: "('o, 'a, 'r, 'i) transition list"
  terminal :: bool

subsection \<open>The reward source\<close>

text \<open>
  \<^verbatim>\<open>RewardFn\<close>: a callable from a batch of transitions (observations, actions, next
  observations, done flags) to a batch of rewards. A callable may raise.
\<close>

type_synonym ('o, 'a, 'r) reward_fn =
  "'o list \<Rightarrow> 'a list \<Rightarrow> 'o list \<Rightarrow> bool list \<Rightarrow> exn + 'r list"

text \<open>
  Modelled from the spec: \<^verbatim>\<open>imitation.rewards.reward_nets.RewardNet\<close> is not part of
  the given sources. The spec describes it as a learned model exposing a prediction
  capability with the same transition-batch signature; only its \<^verbatim>\<open>predict\<close> attribute is
  read by the trainer.
\<close>

record ('o, 'a, 'r) reward_net =
  predict :: "('o, 'a, 'r) reward_fn"

datatype ('o, 'a, 'r) reward_source =
    RewardFn "('o, 'a, 'r) reward_fn"
  | RewardNet "('o, 'a, 'r) reward_net"

subsection \<open>The vectorized environment (external collaborator)\<close>

text \<open>
  A \<^verbatim>\<open>VecEnv\<close> of stable-baselines is a state machine over batches: its behaviour is a
  parameter. \<open>history\<close> lists every batch the environment has returned so far, oldest
  first; it is how the theorems below speak about the transitions that really happened.
\<close>

datatype ('o, 'a, 'r, 'i) event =
    EvReset "'o list"
  | EvStep "'a list" "('o, 'r, 'i) step_result"

record ('s, 'o, 'a, 'r, 'i) vec_env =
  state :: 's
  reset_fn :: "'s \<Rightarrow> 's \<times> 'o list"
  step_fn :: "'s \<Rightarrow> 'a list \<Rightarrow> 's \<times> ('o, 'r, 'i) step_result"
  history :: "('o, 'a, 'r, 'i) event list"

subsection \<open>The trajectory buffer\<close>

text \<open>
  Modelled from the spec: \<^verbatim>\<open>imitation.data.wrappers.BufferingWrapper\<close> is not part of the
  given sources. The spec: it wraps a VecEnv and transparently forwards reset and step;
  it accumulates, per sub-environment index, the running (observation, action, reward,
  info) sequence until a done flag is observed, then finalizes a trajectory and enqueues
  it; draining returns and clears all queued trajectories; a reset clears the queued and
  the partial state.
\<close>

record ('o, 'a, 'r, 'i) buffer =
  partial :: "nat \<Rightarrow> ('o, 'a, 'r, 'i) transition list"
  queue :: "('o, 'a, 'r, 'i) trajectory list"
  next_id :: nat

text \<open>
  Modelled from the spec: the state of a \<^verbatim>\<open>BufferingWrapper\<close> at its creation (nothing
  recorded, nothing queued) and after a reset, which clears the queued and the partial
  state.
\<close>

definition new_buffer :: "('o, 'a, 'r, 'i) buffer" where
  "new_buffer = \<lparr>partial = (\<lambda>_. []), queue = [], next_id = 0\<rparr>"

definition clear :: "('o, 'a, 'r, 'i) buffer \<Rightarrow> ('o, 'a, 'r, 'i) buffer" where
  "clear b = b\<lparr>partial := (\<lambda>_. []), queue := []\<rparr>"

text \<open>
  Modelled from the spec: what the \<^verbatim>\<open>BufferingWrapper\<close> does with the transition of the
  sub-environment \<open>i\<close>. It appends the transition to the running episode of \<open>i\<close>; when
  the done flag is set, the episode becomes a trajectory at the end of the queue and a new
  episode begins.
\<close>

definition record_one ::
  "nat \<Rightarrow> ('o, 'a, 'r, 'i) transition \<Rightarrow> bool \<Rightarrow> ('o, 'a, 'r, 'i) buffer
     \<Rightarrow> ('o, 'a, 'r, 'i) buffer" where
  "record_one i tr d b =
     (let ep = partial b i @ [tr] in
      if d then
        b\<lparr>partial := (partial b)(i := []),
          queue := queue b @ [\<lparr>traj_id = next_id b, steps = ep, terminal = True\<rparr>],
          next_id := Suc (next_id b)\<rparr>
      else b\<lparr>partial := (partial b)(i := ep)\<rparr>)"

text \<open>
  Modelled from the spec: what the \<^verbatim>\<open>BufferingWrapper\<close> does with the batch of one step,
  sub-environment by sub-environment, in the order of their indices.
\<close>

fun record_from ::
  "nat \<Rightarrow> (('o, 'a, 'r, 'i) transition \<times> bool) list \<Rightarrow> ('o, 'a, 'r, 'i) buffer
     \<Rightarrow> ('o, 'a, 'r, 'i) buffer" where
  "record_from i [] b = b"
| "record_from i ((tr, d) # ts) b = record_from (Suc i) ts (record_one i tr d b)"

definition record_step ::
  "'a list \<Rightarrow> ('o, 'r, 'i) step_result \<Rightarrow> ('o, 'a, 'r, 'i) buffer \<Rightarrow> ('o, 'a, 'r, 'i) buffer" where
  "record_step acts res b = record_from 0 (transitions acts res) b"

subsection \<open>The training algorithm (external collaborator)\<close>

text \<open>
  What a call of \<^verbatim>\<open>learn\<close> does with the algorithm's environment: it resets or steps it,
  chooses what to do next from what the environment returned, and in the end either
  returns, leaving the algorithm with a policy object, or raises.
\<close>

datatype ('o, 'a, 'r, 'i) learner =
    Done ref
  | Fail exn
  | Step "'a list" "('o, 'r, 'i) step_result \<Rightarrow> ('o, 'a, 'r, 'i) learner"
  | Reset "'o list \<Rightarrow> ('o, 'a, 'r, 'i) learner"

text \<open>
  A \<^verbatim>\<open>BaseAlgorithm\<close>: its environment (possibly unset), its policy object and the
  behaviour of its \<^verbatim>\<open>learn\<close>, which may depend on how many calls came before, on
  \<^verbatim>\<open>total_timesteps\<close> and on the keyword arguments.
\<close>

record ('o, 'a, 'r, 'i, 'k) algorithm =
  alg_env :: "ref option"
  alg_policy :: ref
  alg_learn :: "nat \<Rightarrow> nat \<Rightarrow> 'k \<Rightarrow> ('o, 'a, 'r, 'i) learner"
  alg_calls :: nat

subsection \<open>The store\<close>

text \<open>
  Modelled from the spec: \<^verbatim>\<open>imitation.util.reward_wrapper.RewardVecEnvWrapper\<close> is not
  part of the given sources. The spec: it wraps a VecEnv; on each step it computes a
  reward batch with the bound reward source from the true transition (current
  observation, action, next observation, done flag) and returns that batch to its caller
  in place of the wrapped environment's reward. Its third field is the current
  observation, unset until the first reset.
\<close>

datatype ('s, 'o, 'a, 'r, 'i, 'k) obj =
    VecEnv "('s, 'o, 'a, 'r, 'i) vec_env"
  | GymEnv
  | BufferingWrapper ref "('o, 'a, 'r, 'i) buffer"
  | RewardVecEnvWrapper ref "('o, 'a, 'r) reward_fn" "'o list option"
  | Algorithm "('o, 'a, 'r, 'i, 'k) algorithm"

type_synonym ('s, 'o, 'a, 'r, 'i, 'k) heap = "('s, 'o, 'a, 'r, 'i, 'k) obj list"

text \<open>
  The store is the list of the objects created so far and a reference is an index into
  it: a new object goes to the end, and no reference is ever reused. Reading a reference
  that was never allocated gives \<open>None\<close>.
\<close>

definition lookup :: "'x list \<Rightarrow> ref \<Rightarrow> 'x option" where
  "lookup h r = (if r < length h then Some (h ! r) else None)"

definition alloc :: "'x list \<Rightarrow> 'x \<Rightarrow> ref \<times> 'x list" where
  "alloc h x = (length h, h @ [x])"

text \<open>\<^verbatim>\<open>isinstance(venv, vec_env.VecEnv)\<close>; the two wrappers are VecEnvs themselves.\<close>

fun is_VecEnv :: "('s, 'o, 'a, 'r, 'i, 'k) obj \<Rightarrow> bool" where
  "is_VecEnv (VecEnv v) = True"
| "is_VecEnv (BufferingWrapper inner b) = True"
| "is_VecEnv (RewardVecEnvWrapper inner rf old) = True"
| "is_VecEnv GymEnv = False"
| "is_VecEnv (Algorithm alg) = False"

definition isinstance_VecEnv :: "('s, 'o, 'a, 'r, 'i, 'k) heap \<Rightarrow> ref \<Rightarrow> bool" where
  "isinstance_VecEnv h r = (case lookup h r of None \<Rightarrow> False | Some x \<Rightarrow> is_VecEnv x)"

subsection \<open>Reset and step through a chain of wrappers\<close>

text \<open>
  Modelled from the spec: the reset and the step of \<^verbatim>\<open>BufferingWrapper\<close> and of
  \<^verbatim>\<open>RewardVecEnvWrapper\<close>, which are not part of the given sources (the cases of the
  two wrappers below); the case of a \<open>VecEnv\<close> is the external environment, run by its
  behaviour. A call on an environment handle dispatches on the object it refers to. A wrapper
  forwards the call to the environment it wraps and then updates its own state. The
  wrapped object exists before its wrapper is created and the wrapper never rebinds it,
  so the wrapped reference is the smaller one; a chain that does not descend would never
  return in Python and is reported as \<open>RecursionError\<close>.
\<close>

function env_reset ::
  "ref \<Rightarrow> ('s, 'o, 'a, 'r, 'i, 'k) heap \<Rightarrow> (exn + 'o list) \<times> ('s, 'o, 'a, 'r, 'i, 'k) heap" where
  "env_reset r h =
     (case lookup h r of
        Some (VecEnv v) \<Rightarrow>
          (let (s', ob) = reset_fn v (state v) in
           (Inr ob, h[r := VecEnv (v\<lparr>state := s', history := history v @ [EvReset ob]\<rparr>)]))
      | Some (BufferingWrapper inner b) \<Rightarrow>
          if inner < r then
            (case env_reset inner h of
               (Inl e, h') \<Rightarrow> (Inl e, h')
             | (Inr ob, h') \<Rightarrow> (Inr ob, h'[r := BufferingWrapper inner (clear b)]))
          else (Inl RecursionError, h)
      | Some (RewardVecEnvWrapper inner rf old) \<Rightarrow>
          if inner < r then
            (case env_reset inner h of
               (Inl e, h') \<Rightarrow> (Inl e, h')
             | (Inr ob, h') \<Rightarrow> (Inr ob, h'[r := RewardVecEnvWrapper inner rf (Some ob)]))
          else (Inl RecursionError, h)
      | _ \<Rightarrow> (Inl AttributeError, h))"
  by pat_completeness auto
termination
  by (relation "measure fst") auto

function env_step ::
  "ref \<Rightarrow> 'a list \<Rightarrow> ('s, 'o, 'a, 'r, 'i, 'k) heap
     \<Rightarrow> (exn + ('o, 'r, 'i) step_result) \<times> ('s, 'o, 'a, 'r, 'i, 'k) heap" where
  "env_step r acts h =
     (case lookup h r of
        Some (VecEnv v) \<Rightarrow>
          (let (s', res) = step_fn v (state v) acts in
           (Inr res, h[r := VecEnv (v\<lparr>state := s', history := history v @ [EvStep acts res]\<rparr>)]))
      | Some (BufferingWrapper inner b) \<Rightarrow>
          if inner < r then
            (case env_step inner acts h of
               (Inl e, h') \<Rightarrow> (Inl e, h')
             | (Inr res, h') \<Rightarrow>
                 (Inr res, h'[r := BufferingWrapper inner (record_step acts res b)]))
          else (Inl RecursionError, h)
      | Some (RewardVecEnvWrapper inner rf old) \<Rightarrow>
          if inner < r then
            (case env_step inner acts h of
               (Inl e, h') \<Rightarrow> (Inl e, h')
             | (Inr res, h') \<Rightarrow>
                 (case old of
                    None \<Rightarrow> (Inl AssertionError, h')
                  | Some cur \<Rightarrow>
                      (case rf cur acts (obs res) (dones res) of
                         Inl e \<Rightarrow> (Inl e, h')
                       | Inr rs \<Rightarrow>
                           (Inr (res\<lparr>rews := rs\<rparr>),
                            h'[r := RewardVecEnvWrapper inner rf (Some (obs res))]))))
          else (Inl RecursionError, h)
      | _ \<Rightarrow> (Inl AttributeError, h))"
  by pat_completeness auto
termination
  by (relation "measure fst") auto

declare env_reset.simps [simp del] env_step.simps [simp del]

text \<open>
  Modelled from the spec: \<^verbatim>\<open>BufferingWrapper.pop_trajectories\<close>, the drain, which is not
  part of the given sources. It returns the queued trajectories and clears the queue.
\<close>

definition pop_trajectories ::
  "ref \<Rightarrow> ('s, 'o, 'a, 'r, 'i, 'k) heap
     \<Rightarrow> (exn + ('o, 'a, 'r, 'i) trajectory list) \<times> ('s, 'o, 'a, 'r, 'i, 'k) heap" where
  "pop_trajectories r h =
     (case lookup h r of
        Some (BufferingWrapper inner b) \<Rightarrow>
          (Inr (queue b), h[r := BufferingWrapper inner (b\<lparr>queue := []\<rparr>)])
      | _ \<Rightarrow> (Inl AttributeError, h))"

subsection \<open>The algorithm's methods\<close>

text \<open>
  \<^verbatim>\<open>get_env\<close>, \<^verbatim>\<open>set_env\<close> and \<^verbatim>\<open>learn\<close> of the stable-baselines algorithm (external).
  \<^verbatim>\<open>learn\<close> counts the call, runs the behaviour the algorithm has for this call on the
  algorithm's environment and, when the behaviour returns, installs the policy it ends
  with. An exception of the environment, of the reward function or of the behaviour itself
  ends the call at once.
\<close>

definition get_env ::
  "ref \<Rightarrow> ('s, 'o, 'a, 'r, 'i, 'k) heap \<Rightarrow> exn + ref option" where
  "get_env a h =
     (case lookup h a of
        Some (Algorithm alg) \<Rightarrow> Inr (alg_env alg)
      | _ \<Rightarrow> Inl AttributeError)"

definition set_env ::
  "ref \<Rightarrow> ref \<Rightarrow> ('s, 'o, 'a, 'r, 'i, 'k) heap \<Rightarrow> (exn + unit) \<times> ('s, 'o, 'a, 'r, 'i, 'k) heap" where
  "set_env a e h =
     (case lookup h a of
        Some (Algorithm alg) \<Rightarrow> (Inr (), h[a := Algorithm (alg\<lparr>alg_env := Some e\<rparr>)])
      | _ \<Rightarrow> (Inl AttributeError, h))"

primrec run_learner ::
  "('o, 'a, 'r, 'i) learner \<Rightarrow> ref \<Rightarrow> ('s, 'o, 'a, 'r, 'i, 'k) heap
     \<Rightarrow> (exn + ref) \<times> ('s, 'o, 'a, 'r, 'i, 'k) heap" where
  "run_learner (Done p) e h = (Inr p, h)"
| "run_learner (Fail x) e h = (Inl x, h)"
| "run_learner (Step acts k) e h =
     (case env_step e acts h of
        (Inl x, h') \<Rightarrow> (Inl x, h')
      | (Inr res, h') \<Rightarrow> run_learner (k res) e h')"
| "run_learner (Reset k) e h =
     (case env_reset e h of
        (Inl x, h') \<Rightarrow> (Inl x, h')
      | (Inr ob, h') \<Rightarrow> run_learner (k ob) e h')"

definition learn ::
  "ref \<Rightarrow> nat \<Rightarrow> 'k \<Rightarrow> ('s, 'o, 'a, 'r, 'i, 'k) heap
     \<Rightarrow> (exn + unit) \<times> ('s, 'o, 'a, 'r, 'i, 'k) heap" where
  "learn a total_timesteps kwargs h =
     (case lookup h a of
        Some (Algorithm alg) \<Rightarrow>
          (case alg_env alg of
             None \<Rightarrow> (Inl AttributeError, h)
           | Some e \<Rightarrow>
               (let alg' = alg\<lparr>alg_calls := Suc (alg_calls alg)\<rparr> in
                case run_learner (alg_learn alg (alg_calls alg) total_timesteps kwargs) e
                       (h[a := Algorithm alg']) of
                  (Inl x, h') \<Rightarrow> (Inl x, h')
                | (Inr p, h') \<Rightarrow> (Inr (), h'[a := Algorithm (alg'\<lparr>alg_policy := p\<rparr>)])))
      | _ \<Rightarrow> (Inl AttributeError, h))"

subsection \<open>AgentTrainer\<close>

record ('o, 'a, 'r) agent_trainer =
  algorithm :: ref
  reward_fn :: "('o, 'a, 'r) reward_fn"
  buffering_wrapper :: ref
  venv :: ref

text \<open>
  \<^verbatim>\<open>AgentTrainer.__init__\<close>, lines 23 to 52. \<^verbatim>\<open>get_env\<close> returns \<^verbatim>\<open>None\<close> when the
  algorithm has no environment, and \<^verbatim>\<open>isinstance(None, VecEnv)\<close> is false.
\<close>

definition AgentTrainer_init ::
  "ref \<Rightarrow> ('o, 'a, 'r) reward_source \<Rightarrow> ('s, 'o, 'a, 'r, 'i, 'k) heap
     \<Rightarrow> (exn + ('o, 'a, 'r) agent_trainer) \<times> ('s, 'o, 'a, 'r, 'i, 'k) heap" where
  "AgentTrainer_init alg_ref src h =
     (let rf = (case src of RewardNet m \<Rightarrow> predict m | RewardFn f \<Rightarrow> f) in
      case get_env alg_ref h of
        Inl e \<Rightarrow> (Inl e, h)
      | Inr None \<Rightarrow>
          (Inl (ValueError ''The environment for the agent algorithm must be set.''), h)
      | Inr (Some venv0) \<Rightarrow>
          if \<not> isinstance_VecEnv h venv0 then
            (Inl (ValueError ''The environment for the agent algorithm must be set.''), h)
          else
            (let (bw, h1) = alloc h (BufferingWrapper venv0 new_buffer);
                 (rw, h2) = alloc h1 (RewardVecEnvWrapper bw rf None)
             in case set_env alg_ref rw h2 of
                  (Inl e, h3) \<Rightarrow> (Inl e, h3)
                | (Inr _, h3) \<Rightarrow>
                    (Inr \<lparr>algorithm = alg_ref, reward_fn = rf,
                          buffering_wrapper = bw, venv = rw\<rparr>, h3)))"

text \<open>\<^verbatim>\<open>AgentTrainer._pop_trajectories\<close>, lines 74 and 75.\<close>

definition trainer_pop_trajectories ::
  "('o, 'a, 'r) agent_trainer \<Rightarrow> ('s, 'o, 'a, 'r, 'i, 'k) heap
     \<Rightarrow> (exn + ('o, 'a, 'r, 'i) trajectory list) \<times> ('s, 'o, 'a, 'r, 'i, 'k) heap" where
  "trainer_pop_trajectories t h = pop_trajectories (buffering_wrapper t) h"

text \<open>\<^verbatim>\<open>AgentTrainer.train\<close>, lines 54 to 68.\<close>

definition train ::
  "('o, 'a, 'r) agent_trainer \<Rightarrow> nat \<Rightarrow> 'k \<Rightarrow> ('s, 'o, 'a, 'r, 'i, 'k) heap
     \<Rightarrow> (exn + ('o, 'a, 'r, 'i) trajectory list) \<times> ('s, 'o, 'a, 'r, 'i, 'k) heap" where
  "train t total_timesteps kwargs h =
     (case env_reset (venv t) h of
        (Inl e, h1) \<Rightarrow> (Inl e, h1)
      | (Inr _, h1) \<Rightarrow>
          (case learn (algorithm t) total_timesteps kwargs h1 of
             (Inl e, h2) \<Rightarrow> (Inl e, h2)
           | (Inr _, h2) \<Rightarrow> trainer_pop_trajectories t h2))"

text \<open>\<^verbatim>\<open>AgentTrainer.policy\<close>, lines 70 to 72.\<close>

definition policy ::
  "('o, 'a, 'r) agent_trainer \<Rightarrow> ('s, 'o, 'a, 'r, 'i, 'k) heap
     \<Rightarrow> (exn + ref) \<times> ('s, 'o, 'a, 'r, 'i, 'k) heap" where
  "policy t h =
     (case lookup h (algorithm t) of
        Some (Algorithm alg) \<Rightarrow> (Inr (alg_policy alg), h)
      | _ \<Rightarrow> (Inl AttributeError, h))"

section \<open>Notions of the statements\<close>

subsection \<open>The wrapping order and the lifetime of a trainer\<close>

text \<open>
  The order of the wrappers around the environment \<open>e\<close>: the algorithm's environment is the
  trainer's reward wrapper, which wraps the trainer's buffering wrapper, which wraps \<open>e\<close>,
  a vectorized environment.
\<close>

definition wrapping ::
  "('o, 'a, 'r) agent_trainer \<Rightarrow> ref \<Rightarrow> ('s, 'o, 'a, 'r, 'i, 'k) heap \<Rightarrow> bool" where
  "wrapping t e h \<longleftrightarrow>
     (\<exists>alg old b.
        lookup h (algorithm t) = Some (Algorithm alg) \<and> alg_env alg = Some (venv t) \<and>
        lookup h (venv t) =
          Some (RewardVecEnvWrapper (buffering_wrapper t) (reward_fn t) old) \<and>
        lookup h (buffering_wrapper t) = Some (BufferingWrapper e b)) \<and>
     isinstance_VecEnv h e"

text \<open>
  The stores a trainer lives through after its construction: each of its operations
  (train with any arguments and either outcome, the drain, reading the policy) leads
  from one to the next.
\<close>

inductive lifetime ::
  "('o, 'a, 'r) agent_trainer \<Rightarrow> ('s, 'o, 'a, 'r, 'i, 'k) heap \<Rightarrow> ('s, 'o, 'a, 'r, 'i, 'k) heap \<Rightarrow> bool"
  for t :: "('o, 'a, 'r) agent_trainer" and h0 :: "('s, 'o, 'a, 'r, 'i, 'k) heap" where
  created: "lifetime t h0 h0"
| trained: "lifetime t h0 h \<Longrightarrow> train t total_timesteps kwargs h = (r, h') \<Longrightarrow> lifetime t h0 h'"
| drained: "lifetime t h0 h \<Longrightarrow> trainer_pop_trajectories t h = (r, h') \<Longrightarrow> lifetime t h0 h'"
| policy_read: "lifetime t h0 h \<Longrightarrow> policy t h = (p, h') \<Longrightarrow> lifetime t h0 h'"

subsection \<open>What the original environment returned during a call\<close>

text \<open>
  The history of the environment at \<open>e\<close>, and the part of it that a call added, given
  the stores before and after the call.
\<close>

definition history_at ::
  "ref \<Rightarrow> ('s, 'o, 'a, 'r, 'i, 'k) heap \<Rightarrow> ('o, 'a, 'r, 'i) event list" where
  "history_at e h = (case lookup h e of Some (VecEnv v) \<Rightarrow> history v | _ \<Rightarrow> [])"

definition new_events ::
  "ref \<Rightarrow> ('s, 'o, 'a, 'r, 'i, 'k) heap \<Rightarrow> ('s, 'o, 'a, 'r, 'i, 'k) heap
     \<Rightarrow> ('o, 'a, 'r, 'i) event list" where
  "new_events e h h' = drop (length (history_at e h)) (history_at e h')"

text \<open>
  The transitions of a list of events, in the order in which they happened, each with
  its done flag, and the number of those whose done flag is true.
\<close>

fun event_transitions ::
  "('o, 'a, 'r, 'i) event \<Rightarrow> (('o, 'a, 'r, 'i) transition \<times> bool) list" where
  "event_transitions (EvReset ob) = []"
| "event_transitions (EvStep acts res) = transitions acts res"

definition all_transitions ::
  "('o, 'a, 'r, 'i) event list \<Rightarrow> (('o, 'a, 'r, 'i) transition \<times> bool) list" where
  "all_transitions evs = concat (map event_transitions evs)"

definition done_count :: "('o, 'a, 'r, 'i) event list \<Rightarrow> nat" where
  "done_count evs = length (filter snd (all_transitions evs))"

text \<open>
  A trajectory of a completed episode: it is marked terminal and its last step is one
  of the given transitions, with a true done flag.
\<close>

definition ends_done ::
  "(('o, 'a, 'r, 'i) transition \<times> bool) list \<Rightarrow> ('o, 'a, 'r, 'i) trajectory \<Rightarrow> bool" where
  "ends_done ts T \<longleftrightarrow> terminal T \<and> steps T \<noteq> [] \<and> (last (steps T), True) \<in> set ts"

text \<open>
  What recording a list of the environment's events, in their order, makes of a buffer:
  a reset clears it and a step is recorded.
\<close>

fun replay ::
  "('o, 'a, 'r, 'i) event list \<Rightarrow> ('o, 'a, 'r, 'i) buffer \<Rightarrow> ('o, 'a, 'r, 'i) buffer" where
  "replay [] b = b"
| "replay (EvReset ob # evs) b = replay evs (clear b)"
| "replay (EvStep acts res # evs) b = replay evs (record_step acts res b)"

text \<open>
  The events after the last reset in a list of events: the steps that followed it, or
  all the steps when there was no reset.
\<close>

fun since_reset ::
  "('o, 'a, 'r, 'i) event list \<Rightarrow> ('o, 'a, 'r, 'i) event list \<Rightarrow> ('o, 'a, 'r, 'i) event list" where
  "since_reset acc [] = acc"
| "since_reset acc (EvReset ob # evs) = since_reset [] evs"
| "since_reset acc (EvStep acts res # evs) = since_reset (acc @ [EvStep acts res]) evs"

definition after_last_reset :: "('o, 'a, 'r, 'i) event list \<Rightarrow> ('o, 'a, 'r, 'i) event list" where
  "after_last_reset evs = since_reset [] evs"

subsection \<open>Learners that reset only before they step\<close>



section \<open>Notions of the proofs\<close>

text \<open>
  Two objects have the same shape when they are of the same class and agree on what
  never changes after creation: the wrapped reference, the bound reward function, the
  environment's behaviour, the algorithm's environment and behaviour.
\<close>

fun same_shape ::
  "('s, 'o, 'a, 'r, 'i, 'k) obj \<Rightarrow> ('s, 'o, 'a, 'r, 'i, 'k) obj \<Rightarrow> bool" where
  "same_shape (VecEnv v) (VecEnv v') = (reset_fn v' = reset_fn v \<and> step_fn v' = step_fn v)"
| "same_shape GymEnv GymEnv = True"
| "same_shape (BufferingWrapper inner b) (BufferingWrapper inner' b') = (inner' = inner)"
| "same_shape (RewardVecEnvWrapper inner rf old) (RewardVecEnvWrapper inner' rf' old') =
     (inner' = inner \<and> rf' = rf)"
| "same_shape (Algorithm alg) (Algorithm alg') =
     (alg_env alg' = alg_env alg \<and> alg_learn alg' = alg_learn alg)"
| "same_shape _ _ = False"

definition same_shapes ::
  "('s, 'o, 'a, 'r, 'i, 'k) heap \<Rightarrow> ('s, 'o, 'a, 'r, 'i, 'k) heap \<Rightarrow> bool" where
  "same_shapes h h' \<longleftrightarrow> list_all2 same_shape h h'"

text \<open>
  The tower: the state of the original environment, of the buffer and of the reward
  wrapper, taken out of the store, with reset, step and the run of a learner on it.
\<close>

type_synonym ('s, 'o, 'a, 'r, 'i) tower =
  "('s, 'o, 'a, 'r, 'i) vec_env \<times> ('o, 'a, 'r, 'i) buffer \<times> 'o list option"

definition put_tower ::
  "ref \<Rightarrow> ref \<Rightarrow> ref \<Rightarrow> ('o, 'a, 'r) reward_fn \<Rightarrow> ('s, 'o, 'a, 'r, 'i) tower
     \<Rightarrow> ('s, 'o, 'a, 'r, 'i, 'k) heap \<Rightarrow> ('s, 'o, 'a, 'r, 'i, 'k) heap" where
  "put_tower e bw rw rf c h =
     (case c of (v, b, old) \<Rightarrow>
        h[e := VecEnv v, bw := BufferingWrapper e b, rw := RewardVecEnvWrapper bw rf old])"

definition tower_reset ::
  "('s, 'o, 'a, 'r, 'i) tower \<Rightarrow> 'o list \<times> ('s, 'o, 'a, 'r, 'i) tower" where
  "tower_reset c =
     (case c of (v, b, old) \<Rightarrow>
        (let (s', ob) = reset_fn v (state v) in
         (ob, (v\<lparr>state := s', history := history v @ [EvReset ob]\<rparr>, clear b, Some ob))))"

definition tower_step ::
  "('o, 'a, 'r) reward_fn \<Rightarrow> 'a list \<Rightarrow> ('s, 'o, 'a, 'r, 'i) tower
     \<Rightarrow> (exn + ('o, 'r, 'i) step_result) \<times> ('s, 'o, 'a, 'r, 'i) tower" where
  "tower_step rf acts c =
     (case c of (v, b, old) \<Rightarrow>
        (let (s', res) = step_fn v (state v) acts;
             v' = v\<lparr>state := s', history := history v @ [EvStep acts res]\<rparr>;
             b' = record_step acts res b
         in case old of
              None \<Rightarrow> (Inl AssertionError, (v', b', old))
            | Some cur \<Rightarrow>
                (case rf cur acts (obs res) (dones res) of
                   Inl x \<Rightarrow> (Inl x, (v', b', old))
                 | Inr rs \<Rightarrow> (Inr (res\<lparr>rews := rs\<rparr>), (v', b', Some (obs res))))))"

primrec tower_run ::
  "('o, 'a, 'r, 'i) learner \<Rightarrow> ('o, 'a, 'r) reward_fn \<Rightarrow> ('s, 'o, 'a, 'r, 'i) tower
     \<Rightarrow> (exn + ref) \<times> ('s, 'o, 'a, 'r, 'i) tower" where
  "tower_run (Done p) rf c = (Inr p, c)"
| "tower_run (Fail x) rf c = (Inl x, c)"
| "tower_run (Step acts k) rf c =
     (case tower_step rf acts c of
        (Inl x, c') \<Rightarrow> (Inl x, c')
      | (Inr res, c') \<Rightarrow> tower_run (k res) rf c')"
| "tower_run (Reset k) rf c =
     (case tower_reset c of (ob, c') \<Rightarrow> tower_run (k ob) rf c')"

text \<open>
  What a buffer has recorded, the numbering of its queue, and what a run of events does
  to a tower.
\<close>

definition recorded :: "('o, 'a, 'r, 'i) buffer \<Rightarrow> ('o, 'a, 'r, 'i) transition set" where
  "recorded b = (\<Union>T \<in> set (queue b). set (steps T)) \<union> (\<Union>i. set (partial b i))"

definition ids_from :: "nat \<Rightarrow> ('o, 'a, 'r, 'i) buffer \<Rightarrow> bool" where
  "ids_from n b \<longleftrightarrow>
     (\<exists>m. n \<le> m \<and> m \<le> next_id b \<and> map traj_id (queue b) = [m..<next_id b])"

definition grows ::
  "nat \<Rightarrow> ('o, 'a, 'r, 'i) event list \<Rightarrow> ('s, 'o, 'a, 'r, 'i) tower \<Rightarrow> ('s, 'o, 'a, 'r, 'i) tower \<Rightarrow> bool" where
  "grows n evs c c' \<longleftrightarrow>
     history (fst c') = history (fst c) @ evs \<and>
     reset_fn (fst c') = reset_fn (fst c) \<and> step_fn (fst c') = step_fn (fst c) \<and>
     next_id (fst (snd c)) \<le> next_id (fst (snd c')) \<and>
     (ids_from n (fst (snd c)) \<longrightarrow> ids_from n (fst (snd c'))) \<and>
     recorded (fst (snd c')) \<subseteq> recorded (fst (snd c)) \<union> fst ` set (all_transitions evs) \<and>
     (\<forall>T \<in> set (queue (fst (snd c'))).
        T \<in> set (queue (fst (snd c))) \<or> ends_done (all_transitions evs) T)"

definition tower_inv ::
  "('o, 'a, 'r) agent_trainer \<Rightarrow> ref \<Rightarrow> ('s, 'o, 'a, 'r, 'i, 'k) heap \<Rightarrow> bool" where
  "tower_inv t e h \<longleftrightarrow>
     wrapping t e h \<and> (\<exists>v. lookup h e = Some (VecEnv v)) \<and>
     e < buffering_wrapper t \<and> buffering_wrapper t < venv t"

definition next_id_at :: "ref \<Rightarrow> ('s, 'o, 'a, 'r, 'i, 'k) heap \<Rightarrow> nat" where
  "next_id_at r h = (case lookup h r of Some (BufferingWrapper inner b) \<Rightarrow> next_id b | _ \<Rightarrow> 0)"

section \<open>The example system\<close>

subsection \<open>A small system to run the operations on\<close>

text \<open>
  Two sub-environments observing a common step counter; every step pays the reward 1
  to each of them; the first one ends an episode on every second step, the other one
  never does. The substituted reward is 100 everywhere.
\<close>

definition ex_reset :: "nat \<Rightarrow> nat \<times> nat list" where
  "ex_reset n = (0, [0, 0])"

definition ex_step :: "nat \<Rightarrow> nat list \<Rightarrow> nat \<times> (nat, int, unit) step_result" where
  "ex_step n acts =
     (Suc n, \<lparr>obs = [Suc n, Suc n], rews = [1, 1], dones = [even (Suc n), False],
              infos = [(), ()]\<rparr>)"

definition ex_env :: "(nat, nat, nat, int, unit) vec_env" where
  "ex_env = \<lparr>state = 0, reset_fn = ex_reset, step_fn = ex_step, history = []\<rparr>"

definition ex_reward :: "(nat, nat, int) reward_fn" where
  "ex_reward cur acts nxt ds = Inr (map (\<lambda>_. 100) nxt)"

definition ex_net :: "(nat, nat, int) reward_net" where
  "ex_net = \<lparr>predict = ex_reward\<rparr>"

definition ex_raising :: "(nat, nat, int) reward_fn" where
  "ex_raising cur acts nxt ds = Inl (Exception 3)"

definition ex_learner :: "(nat, nat, int, unit) learner" where
  "ex_learner =
     Reset (\<lambda>_. Step [0, 0] (\<lambda>_. Step [0, 0] (\<lambda>_. Step [0, 0] (\<lambda>_. Done 9))))"

definition ex_failing :: "(nat, nat, int, unit) learner" where
  "ex_failing = Step [0, 0] (\<lambda>_. Step [0, 0] (\<lambda>_. Fail (Exception 4)))"

definition ex_algorithm :: "ref option \<Rightarrow> (nat, nat, int, unit, unit) algorithm" where
  "ex_algorithm e =
     \<lparr>alg_env = e, alg_policy = 8,
      alg_learn = (\<lambda>calls total_timesteps kwargs. if calls = 1 then ex_failing else ex_learner),
      alg_calls = 0\<rparr>"

definition ex_heap :: "(nat, nat, nat, int, unit, unit) heap" where
  "ex_heap = [VecEnv ex_env, Algorithm (ex_algorithm (Some 0))]"

definition ex_heap_unset :: "(nat, nat, nat, int, unit, unit) heap" where
  "ex_heap_unset = [VecEnv ex_env, Algorithm (ex_algorithm None)]"

definition ex_heap_gym :: "(nat, nat, nat, int, unit, unit) heap" where
  "ex_heap_gym = [GymEnv, Algorithm (ex_algorithm (Some 0))]"

definition ex_trainer :: "(nat, nat, int) agent_trainer" where
  "ex_trainer = \<lparr>algorithm = 1, reward_fn = ex_reward, buffering_wrapper = 2, venv = 3\<rparr>"

definition ex_heap1 :: "(nat, nat, nat, int, unit, unit) heap" where
  "ex_heap1 = [VecEnv ex_env, Algorithm (ex_algorithm (Some 3)),
               BufferingWrapper 0 new_buffer, RewardVecEnvWrapper 2 ex_reward None]"

definition ex_heap2 :: "(nat, nat, nat, int, unit, unit) heap" where
  "ex_heap2 = snd (train ex_trainer 3 () ex_heap1)"

definition ex_heap3 :: "(nat, nat, nat, int, unit, unit) heap" where
  "ex_heap3 = snd (train ex_trainer 3 () ex_heap2)"


definition ex_raising_trainer :: "(nat, nat, int) agent_trainer" where
  "ex_raising_trainer =
     \<lparr>algorithm = 1, reward_fn = ex_raising, buffering_wrapper = 2, venv = 3\<rparr>"

definition ex_raising_heap :: "(nat, nat, nat, int, unit, unit) heap" where
  "ex_raising_heap = [VecEnv ex_env, Algorithm (ex_algorithm (Some 3)),
               BufferingWrapper 0 new_buffer, RewardVecEnvWrapper 2 ex_raising None]"





section \<open>Construction\<close>

lemma lookup_update:
  "lookup (h[r := x]) r' =
     (if r' < length h then (if r' = r then Some x else lookup h r') else None)"
  by (simp add: lookup_def)

lemma lookup_append1: "lookup (h @ [x]) r = (if r = length h then Some x else lookup h r)"
  by (auto simp: lookup_def nth_append)

lemma lookup_append2:
  "lookup (h @ [x, y]) r =
     (if r = length h then Some x else if r = Suc (length h) then Some y else lookup h r)"
  by (auto simp: lookup_def nth_append)

lemma lookup_Some_less: "lookup h r = Some x \<Longrightarrow> r < length h"
  by (simp add: lookup_def split: if_splits)

text \<open>
  Claim C6. When the algorithm's environment is absent, or is not a vectorized
  environment, the constructor raises the \<open>ValueError\<close> of line 43, and the store it
  leaves is the store it was given: nothing of the algorithm has been changed.
\<close>

theorem init_rejects_unset_env:
  assumes "get_env a h = Inr venv0"
    and "venv0 = None \<or> (\<exists>e. venv0 = Some e \<and> \<not> isinstance_VecEnv h e)"
  shows "AgentTrainer_init a src h =
           (Inl (ValueError ''The environment for the agent algorithm must be set.''), h)"
  using assms by (auto simp: AgentTrainer_init_def Let_def)

theorem init_rejects_unset_env_witness:
  "get_env 1 ex_heap_unset = Inr None
   \<and> AgentTrainer_init 1 (RewardFn ex_reward) ex_heap_unset =
       (Inl (ValueError ''The environment for the agent algorithm must be set.''), ex_heap_unset)
   \<and> get_env 1 ex_heap_gym = Inr (Some 0) \<and> \<not> isinstance_VecEnv ex_heap_gym 0
   \<and> AgentTrainer_init 1 (RewardNet ex_net) ex_heap_gym =
       (Inl (ValueError ''The environment for the agent algorithm must be set.''), ex_heap_gym)"
proof -
  have g1: "get_env 1 ex_heap_unset = Inr None"
    by (simp add: get_env_def lookup_def ex_heap_unset_def ex_algorithm_def)
  have g2: "get_env 1 ex_heap_gym = Inr (Some 0)"
    by (simp add: get_env_def lookup_def ex_heap_gym_def ex_algorithm_def)
  have n2: "\<not> isinstance_VecEnv ex_heap_gym 0"
    by (simp add: isinstance_VecEnv_def lookup_def ex_heap_gym_def)
  show ?thesis
    using init_rejects_unset_env[OF g1, of "RewardFn ex_reward"]
      init_rejects_unset_env[OF g2, of "RewardNet ex_net"] g1 g2 n2
    by simp
qed

text \<open>
  Claim C8. A reward model and a reward function that agree on every batch of
  transitions give the same trainer and the same store: the constructor keeps the
  model's \<open>predict\<close> as the trainer's reward function and binds it in the reward wrapper,
  so every later step computes the same substituted rewards, and nothing after the
  constructor looks at the kind of the reward source again.
\<close>

theorem model_and_function_agree:
  assumes "\<forall>cur acts nxt ds. predict m cur acts nxt ds = f cur acts nxt ds"
  shows "AgentTrainer_init a (RewardNet m) h = AgentTrainer_init a (RewardFn f) h
         \<and> (\<forall>t h'. AgentTrainer_init a (RewardNet m) h = (Inr t, h') \<longrightarrow>
               reward_fn t = f
               \<and> (\<exists>inner old. lookup h' (venv t) = Some (RewardVecEnvWrapper inner f old)))"
proof -
  have eq: "predict m = f" using assms by (intro ext) simp
  show ?thesis
    by (auto simp: AgentTrainer_init_def Let_def eq alloc_def set_env_def lookup_append2
        lookup_update split: sum.splits option.splits obj.splits if_splits)
qed

theorem model_and_function_agree_witness:
  "(\<forall>cur acts nxt ds. predict ex_net cur acts nxt ds = ex_reward cur acts nxt ds)
   \<and> AgentTrainer_init 1 (RewardNet ex_net) ex_heap = AgentTrainer_init 1 (RewardFn ex_reward) ex_heap
   \<and> fst (AgentTrainer_init 1 (RewardNet ex_net) ex_heap) =
       Inr \<lparr>algorithm = 1, reward_fn = ex_reward, buffering_wrapper = 2, venv = 3\<rparr>"
proof -
  have a: "\<forall>cur acts nxt ds. predict ex_net cur acts nxt ds = ex_reward cur acts nxt ds"
    by (simp add: ex_net_def)
  have b: "fst (AgentTrainer_init 1 (RewardNet ex_net) ex_heap) =
       Inr \<lparr>algorithm = 1, reward_fn = ex_reward, buffering_wrapper = 2, venv = 3\<rparr>"
    by (simp add: AgentTrainer_init_def get_env_def set_env_def alloc_def lookup_def
        isinstance_VecEnv_def ex_heap_def ex_algorithm_def ex_net_def)
  show ?thesis
    using model_and_function_agree[OF a, of 1 ex_heap] a b by simp
qed

section \<open>The store, the tower of wrappers and the lifetime of a trainer\<close>

lemma same_shape_refl: "same_shape x x"
  by (cases x) simp_all

lemma same_shape_trans: "same_shape x y \<Longrightarrow> same_shape y z \<Longrightarrow> same_shape x z"
  by (cases x; cases y; cases z) simp_all

lemma same_shapes_refl: "same_shapes h h"
  by (simp add: same_shapes_def list_all2_refl same_shape_refl)

lemma same_shapes_trans: "same_shapes h h' \<Longrightarrow> same_shapes h' h'' \<Longrightarrow> same_shapes h h''"
  unfolding same_shapes_def
  by (rule list_all2_trans[where ?P1.0 = same_shape and ?P2.0 = same_shape])
     (auto intro: same_shape_trans)

lemma same_shapes_update:
  "lookup h r = Some x \<Longrightarrow> same_shape x y \<Longrightarrow> same_shapes h (h[r := y])"
  unfolding same_shapes_def
  by (auto simp: list_all2_conv_all_nth lookup_def nth_list_update same_shape_refl split: if_splits)

lemma same_shapes_update2:
  "same_shapes h h' \<Longrightarrow> lookup h r = Some x \<Longrightarrow> same_shape x y \<Longrightarrow> same_shapes h (h'[r := y])"
  unfolding same_shapes_def
  by (auto simp: list_all2_conv_all_nth lookup_def nth_list_update split: if_splits)

lemma env_reset_shapes: "env_reset r h = (res, h') \<Longrightarrow> same_shapes h h'"
proof (induction r h arbitrary: res h' rule: env_reset.induct)
  case (1 r h)
  show ?case
    using "1.prems" "1.IH"
    apply (subst (asm) env_reset.simps)
    apply (auto split: option.splits obj.splits if_splits prod.splits sum.splits
        simp: same_shapes_refl clear_def
        intro!: same_shapes_update same_shapes_update2)
    done
qed

lemma env_step_shapes: "env_step r acts h = (res, h') \<Longrightarrow> same_shapes h h'"
proof (induction r acts h arbitrary: res h' rule: env_step.induct)
  case (1 r acts h)
  show ?case
    using "1.prems" "1.IH"
    apply (subst (asm) env_step.simps)
    apply (auto split: option.splits obj.splits if_splits prod.splits sum.splits
        simp: same_shapes_refl
        intro!: same_shapes_update same_shapes_update2)
    done
qed

lemma put_tower_length [simp]: "length (put_tower e bw rw rf c h) = length h"
  by (simp add: put_tower_def split: prod.splits)

lemma lookup_put_tower:
  assumes "e < bw" "bw < rw" "rw < length h"
  shows "lookup (put_tower e bw rw rf (v, b, old) h) e = Some (VecEnv v)"
    and "lookup (put_tower e bw rw rf (v, b, old) h) bw = Some (BufferingWrapper e b)"
    and "lookup (put_tower e bw rw rf (v, b, old) h) rw = Some (RewardVecEnvWrapper bw rf old)"
  using assms by (simp_all add: put_tower_def lookup_def)

lemma lookup_put_tower_other:
  assumes "r \<noteq> e" "r \<noteq> bw" "r \<noteq> rw"
  shows "lookup (put_tower e bw rw rf c h) r = lookup h r"
  using assms by (simp add: put_tower_def lookup_def split: prod.splits)

lemma nth_upd: "(xs[r := x]) ! i = (if i = r \<and> r < length xs then x else xs ! i)"
  by (cases "r < length xs") (auto simp: nth_list_update list_update_beyond)

lemma put_tower_put_tower:
  assumes "e < bw" "bw < rw"
  shows "put_tower e bw rw rf c' (put_tower e bw rw rf c h) = put_tower e bw rw rf c' h"
  using assms
  by (cases c; cases c') (auto simp: put_tower_def list_eq_iff_nth_eq nth_upd)

lemma put_tower_id:
  assumes "lookup h e = Some (VecEnv v)" "lookup h bw = Some (BufferingWrapper e b)"
    "lookup h rw = Some (RewardVecEnvWrapper bw rf old)"
  shows "put_tower e bw rw rf (v, b, old) h = h"
  using assms
  by (auto simp: put_tower_def lookup_def list_eq_iff_nth_eq nth_list_update split: if_splits)

lemma put_tower_update_other:
  assumes "a \<noteq> e" "a \<noteq> bw" "a \<noteq> rw"
  shows "put_tower e bw rw rf c (h[a := x]) = (put_tower e bw rw rf c h)[a := x]"
  using assms
  by (cases c) (auto simp: put_tower_def list_eq_iff_nth_eq nth_upd)

lemma env_reset_VecEnv:
  assumes "lookup h e = Some (VecEnv v)"
  shows "env_reset e h =
           (Inr (snd (reset_fn v (state v))),
            h[e := VecEnv (v\<lparr>state := fst (reset_fn v (state v)),
                            history := history v @ [EvReset (snd (reset_fn v (state v)))]\<rparr>)])"
  using assms by (subst env_reset.simps) (simp add: case_prod_beta)

lemma env_reset_BufferingWrapper:
  assumes "lookup h r = Some (BufferingWrapper inner b)" "inner < r"
  shows "env_reset r h =
           (case env_reset inner h of
              (Inl x, h') \<Rightarrow> (Inl x, h')
            | (Inr ob, h') \<Rightarrow> (Inr ob, h'[r := BufferingWrapper inner (clear b)]))"
  using assms by (subst env_reset.simps) simp

lemma env_reset_RewardVecEnvWrapper:
  assumes "lookup h r = Some (RewardVecEnvWrapper inner rf old)" "inner < r"
  shows "env_reset r h =
           (case env_reset inner h of
              (Inl x, h') \<Rightarrow> (Inl x, h')
            | (Inr ob, h') \<Rightarrow> (Inr ob, h'[r := RewardVecEnvWrapper inner rf (Some ob)]))"
  using assms by (subst env_reset.simps) simp

lemma env_step_VecEnv:
  assumes "lookup h e = Some (VecEnv v)"
  shows "env_step e acts h =
           (Inr (snd (step_fn v (state v) acts)),
            h[e := VecEnv (v\<lparr>state := fst (step_fn v (state v) acts),
                            history := history v @ [EvStep acts (snd (step_fn v (state v) acts))]\<rparr>)])"
  using assms by (subst env_step.simps) (simp add: case_prod_beta)

lemma env_step_BufferingWrapper:
  assumes "lookup h r = Some (BufferingWrapper inner b)" "inner < r"
  shows "env_step r acts h =
           (case env_step inner acts h of
              (Inl x, h') \<Rightarrow> (Inl x, h')
            | (Inr res, h') \<Rightarrow>
                (Inr res, h'[r := BufferingWrapper inner (record_step acts res b)]))"
  using assms by (subst env_step.simps) simp

lemma env_step_RewardVecEnvWrapper:
  assumes "lookup h r = Some (RewardVecEnvWrapper inner rf old)" "inner < r"
  shows "env_step r acts h =
           (case env_step inner acts h of
              (Inl x, h') \<Rightarrow> (Inl x, h')
            | (Inr res, h') \<Rightarrow>
                (case old of
                   None \<Rightarrow> (Inl AssertionError, h')
                 | Some cur \<Rightarrow>
                     (case rf cur acts (obs res) (dones res) of
                        Inl x \<Rightarrow> (Inl x, h')
                      | Inr rs \<Rightarrow>
                          (Inr (res\<lparr>rews := rs\<rparr>),
                           h'[r := RewardVecEnvWrapper inner rf (Some (obs res))]))))"
  using assms by (subst env_step.simps) simp

lemma env_reset_tower:
  assumes "e < bw" "bw < rw" "rw < length h"
  shows "env_reset rw (put_tower e bw rw rf c h) =
           (Inr (fst (tower_reset c)), put_tower e bw rw rf (snd (tower_reset c)) h)"
proof -
  obtain v b old where c: "c = (v, b, old)" by (cases c)
  let ?h = "put_tower e bw rw rf (v, b, old) h"
  note lk = lookup_put_tower[OF assms, of rf v b old]
  have 1: "env_reset e ?h = (Inr (fst (tower_reset c)),
             ?h[e := VecEnv (fst (snd (tower_reset c)))])"
    by (simp add: env_reset_VecEnv[OF lk(1)] tower_reset_def c case_prod_beta)
  have 2: "env_reset bw ?h = (Inr (fst (tower_reset c)),
             ?h[e := VecEnv (fst (snd (tower_reset c))), bw := BufferingWrapper e (clear b)])"
    by (simp add: env_reset_BufferingWrapper[OF lk(2) assms(1)] 1)
  have 3: "env_reset rw ?h = (Inr (fst (tower_reset c)),
             ?h[e := VecEnv (fst (snd (tower_reset c))), bw := BufferingWrapper e (clear b),
                rw := RewardVecEnvWrapper bw rf (Some (fst (tower_reset c)))])"
    by (simp add: env_reset_RewardVecEnvWrapper[OF lk(3) assms(2)] 2)
  have 4: "?h[e := VecEnv (fst (snd (tower_reset c))), bw := BufferingWrapper e (clear b),
                rw := RewardVecEnvWrapper bw rf (Some (fst (tower_reset c)))]
           = put_tower e bw rw rf (snd (tower_reset c)) ?h"
    by (simp add: put_tower_def tower_reset_def c case_prod_beta)
  show ?thesis
    unfolding c[symmetric] 3[unfolded c[symmetric]] 4[unfolded c[symmetric]]
    by (simp add: put_tower_put_tower[OF assms(1,2)])
qed

lemma env_step_tower:
  assumes "e < bw" "bw < rw" "rw < length h"
  shows "env_step rw acts (put_tower e bw rw rf c h) =
           (fst (tower_step rf acts c), put_tower e bw rw rf (snd (tower_step rf acts c)) h)"
proof -
  obtain v b old where c: "c = (v, b, old)" by (cases c)
  let ?h = "put_tower e bw rw rf (v, b, old) h"
  note lk = lookup_put_tower[OF assms, of rf v b old]
  let ?res = "snd (step_fn v (state v) acts)"
  let ?v' = "v\<lparr>state := fst (step_fn v (state v) acts), history := history v @ [EvStep acts ?res]\<rparr>"
  have 1: "env_step e acts ?h = (Inr ?res, ?h[e := VecEnv ?v'])"
    by (simp add: env_step_VecEnv[OF lk(1)])
  have 2: "env_step bw acts ?h = (Inr ?res,
             ?h[e := VecEnv ?v', bw := BufferingWrapper e (record_step acts ?res b)])"
    by (simp add: env_step_BufferingWrapper[OF lk(2) assms(1)] 1)
  have 3: "?h[e := VecEnv ?v', bw := BufferingWrapper e (record_step acts ?res b)]
            = put_tower e bw rw rf (?v', record_step acts ?res b, old) h"
    using assms by (auto simp: put_tower_def list_eq_iff_nth_eq nth_upd)
  have 4: "(put_tower e bw rw rf (?v', record_step acts ?res b, old0) h)[rw := RewardVecEnvWrapper bw rf old']
            = put_tower e bw rw rf (?v', record_step acts ?res b, old') h" for old0 old'
    by (simp add: put_tower_def)
  show ?thesis
    unfolding c
    by (simp add: env_step_RewardVecEnvWrapper[OF lk(3) assms(2)] 2 3 4 tower_step_def
        case_prod_beta Let_def split: option.splits sum.splits)
qed

lemma run_learner_tower:
  assumes "e < bw" "bw < rw" "rw < length h"
  shows "run_learner l rw (put_tower e bw rw rf c h) =
           (fst (tower_run l rf c), put_tower e bw rw rf (snd (tower_run l rf c)) h)"
proof (induction l arbitrary: c)
  case (Step acts k)
  then show ?case
    by (simp add: env_step_tower[OF assms] split: prod.splits sum.splits)
next
  case (Reset k)
  then show ?case
    by (simp add: env_reset_tower[OF assms] split: prod.splits sum.splits)
qed simp_all

lemma all_transitions_append [simp]:
  "all_transitions (xs @ ys) = all_transitions xs @ all_transitions ys"
  by (simp add: all_transitions_def)

lemma all_transitions_simps [simp]:
  "all_transitions [] = []"
  "all_transitions (ev # evs) = event_transitions ev @ all_transitions evs"
  by (simp_all add: all_transitions_def)

lemma done_count_append [simp]: "done_count (xs @ ys) = done_count xs + done_count ys"
  by (simp add: done_count_def)

lemma done_count_simps [simp]:
  "done_count [] = 0"
  "done_count (EvReset ob # evs) = done_count evs"
  "done_count (EvStep acts res # evs) =
     length (filter snd (transitions acts res)) + done_count evs"
  by (simp_all add: done_count_def)

lemma record_one_next_id:
  "next_id (record_one i tr d b) = (if d then Suc (next_id b) else next_id b)"
  by (simp add: record_one_def Let_def)


lemma record_one_recorded: "recorded (record_one i tr d b) \<subseteq> insert tr (recorded b)"
  by (auto simp: record_one_def recorded_def Let_def split: if_splits)

lemma record_one_ids: "ids_from n b \<Longrightarrow> ids_from n (record_one i tr d b)"
  by (auto simp: record_one_def ids_from_def Let_def)

lemma record_one_ends:
  assumes "\<forall>T \<in> set (queue b). P T \<or> ends_done ts T" "(tr, d) \<in> set ts"
  shows "\<forall>T \<in> set (queue (record_one i tr d b)). P T \<or> ends_done ts T"
  using assms by (auto simp: record_one_def Let_def ends_done_def)

lemma record_from_next_id:
  "next_id (record_from i ts b) = next_id b + length (filter snd ts)"
  by (induction i ts b rule: record_from.induct) (simp_all add: record_one_next_id)


lemma record_from_recorded: "recorded (record_from i ts b) \<subseteq> recorded b \<union> fst ` set ts"
proof (induction i ts b rule: record_from.induct)
  case (2 i tr d ts b)
  then show ?case using record_one_recorded[of i tr d b] by auto
qed simp

lemma record_from_ids: "ids_from n b \<Longrightarrow> ids_from n (record_from i ts b)"
  by (induction i ts b rule: record_from.induct) (simp_all add: record_one_ids)

lemma record_from_ends:
  assumes "\<forall>T \<in> set (queue b). P T \<or> ends_done us T" "set ts \<subseteq> set us"
  shows "\<forall>T \<in> set (queue (record_from i ts b)). P T \<or> ends_done us T"
  using assms
proof (induction i ts b rule: record_from.induct)
  case (2 i tr d ts b)
  have "\<forall>T \<in> set (queue (record_one i tr d b)). P T \<or> ends_done us T"
    using record_one_ends[OF "2.prems"(1), of tr d i] "2.prems"(2) by simp
  then show ?case using 2 by simp
qed simp

lemma ends_done_mono: "ends_done ts T \<Longrightarrow> set ts \<subseteq> set us \<Longrightarrow> ends_done us T"
  by (auto simp: ends_done_def)

lemma clear_simps [simp]:
  "queue (clear b) = []" "next_id (clear b) = next_id b" "partial (clear b) i = []"
  by (simp_all add: clear_def)

lemma ids_from_clear: "ids_from n b \<Longrightarrow> ids_from n (clear b)"
  unfolding ids_from_def by (auto intro!: exI[of _ "next_id b"])

lemma ids_from_start: "queue b = [] \<Longrightarrow> ids_from (next_id b) b"
  by (auto simp: ids_from_def)

lemma ids_from_weaken: "ids_from n b \<Longrightarrow> m \<le> n \<Longrightarrow> ids_from m b"
  unfolding ids_from_def by (meson order_trans)

lemma recorded_clear [simp]: "recorded (clear b) = {}"
  by (simp add: recorded_def)

lemma grows_refl: "grows n [] c c"
  by (simp add: grows_def)

lemma grows_trans:
  assumes 1: "grows n evs c c'" and 2: "grows n evs' c' c''"
  shows "grows n (evs @ evs') c c''"
proof -
  have a: "recorded (fst (snd c'')) \<subseteq>
        recorded (fst (snd c)) \<union> fst ` set (all_transitions (evs @ evs'))"
    using 1 2 unfolding grows_def by (simp add: image_Un) blast
  have b: "\<forall>T \<in> set (queue (fst (snd c''))).
        T \<in> set (queue (fst (snd c))) \<or> ends_done (all_transitions (evs @ evs')) T"
  proof
    fix T assume "T \<in> set (queue (fst (snd c'')))"
    then consider "T \<in> set (queue (fst (snd c')))" | "ends_done (all_transitions evs') T"
      using 2 unfolding grows_def by blast
    then show "T \<in> set (queue (fst (snd c))) \<or> ends_done (all_transitions (evs @ evs')) T"
    proof cases
      case 1
      then consider "T \<in> set (queue (fst (snd c)))" | "ends_done (all_transitions evs) T"
        using \<open>grows n evs c c'\<close> unfolding grows_def by blast
      then show ?thesis by cases (auto intro: ends_done_mono)
    next
      case 2
      then show ?thesis by (auto intro: ends_done_mono)
    qed
  qed
  show ?thesis
    using 1 2 a b unfolding grows_def by simp
qed

lemma grows_reset: "tower_reset c = (ob, c') \<Longrightarrow> grows n [EvReset ob] c c'"
  by (cases c) (auto simp: grows_def tower_reset_def case_prod_beta ids_from_clear)

lemma grows_record:
  "grows n [EvStep acts res]
     (v, b, old)
     (v\<lparr>state := s', history := history v @ [EvStep acts res]\<rparr>, record_step acts res b, old')"
  using record_from_recorded[of 0 "transitions acts res" b]
    record_from_ends[of b "\<lambda>T. T \<in> set (queue b)" "transitions acts res" "transitions acts res" 0]
  by (simp add: grows_def record_step_def record_from_next_id record_from_ids)

lemma grows_step:
  assumes "tower_step rf acts c = (r, c')"
  shows "grows n [EvStep acts (snd (step_fn (fst c) (state (fst c)) acts))] c c'"
proof -
  obtain v b old where c: "c = (v, b, old)" by (cases c)
  let ?res = "snd (step_fn v (state v) acts)"
  have "\<exists>old'. c' = (v\<lparr>state := fst (step_fn v (state v) acts),
                        history := history v @ [EvStep acts ?res]\<rparr>,
                      record_step acts ?res b, old')"
    using assms
    by (auto simp: c tower_step_def case_prod_beta Let_def split: option.splits sum.splits)
  then show ?thesis using grows_record[of n acts ?res v b old] by (auto simp: c)
qed

lemma tower_run_grows: "tower_run l rf c = (r, c') \<Longrightarrow> \<exists>evs. grows n evs c c'"
proof (induction l arbitrary: c)
  case (Done p)
  then show ?case using grows_refl[of n c] by auto
next
  case (Fail x)
  then show ?case using grows_refl[of n c] by auto
next
  case (Step acts k)
  obtain r1 c1 where s: "tower_step rf acts c = (r1, c1)"
    by (cases "tower_step rf acts c")
  note g = grows_step[OF s, of n]
  show ?case
  proof (cases r1)
    case (Inl x)
    then show ?thesis using Step.prems s g by auto
  next
    case (Inr res')
    then have "tower_run (k res') rf c1 = (r, c')" using Step.prems s by simp
    from Step.IH[OF _ this] obtain evs where "grows n evs c1 c'" by blast
    then show ?thesis using grows_trans[OF g] by blast
  qed
next
  case (Reset k)
  obtain ob c1 where s: "tower_reset c = (ob, c1)"
    by (cases "tower_reset c")
  then have "tower_run (k ob) rf c1 = (r, c')" using Reset.prems by simp
  from Reset.IH[OF _ this] obtain evs where "grows n evs c1 c'" by blast
  then show ?case using grows_trans[OF grows_reset[OF s]] by blast
qed

lemma same_shapes_length: "same_shapes h h' \<Longrightarrow> length h' = length h"
  by (simp add: same_shapes_def list_all2_lengthD)

lemma same_shapes_lookup:
  "same_shapes h h' \<Longrightarrow> lookup h r = Some x \<Longrightarrow> \<exists>y. lookup h' r = Some y \<and> same_shape x y"
  by (auto simp: same_shapes_def lookup_def list_all2_conv_all_nth split: if_splits)

lemma run_learner_shapes: "run_learner l e h = (r, h') \<Longrightarrow> same_shapes h h'"
proof (induction l arbitrary: h)
  case (Step acts k)
  obtain r1 h1 where s: "env_step e acts h = (r1, h1)" by (cases "env_step e acts h")
  note sh = env_step_shapes[OF s]
  show ?case
  proof (cases r1)
    case (Inl x)
    then show ?thesis using Step.prems s sh by simp
  next
    case (Inr res)
    then have "run_learner (k res) e h1 = (r, h')" using Step.prems s by simp
    from Step.IH[OF _ this] show ?thesis using same_shapes_trans[OF sh] by blast
  qed
next
  case (Reset k)
  obtain r1 h1 where s: "env_reset e h = (r1, h1)" by (cases "env_reset e h")
  note sh = env_reset_shapes[OF s]
  show ?case
  proof (cases r1)
    case (Inl x)
    then show ?thesis using Reset.prems s sh by simp
  next
    case (Inr ob)
    then have "run_learner (k ob) e h1 = (r, h')" using Reset.prems s by simp
    from Reset.IH[OF _ this] show ?thesis using same_shapes_trans[OF sh] by blast
  qed
qed (simp_all add: same_shapes_refl)

lemma learn_shapes:
  assumes "learn a n kw h = (r, h')"
  shows "same_shapes h h'"
proof (cases "lookup h a")
  case None
  then show ?thesis using assms by (simp add: learn_def same_shapes_refl)
next
  case (Some x)
  show ?thesis
  proof (cases x)
    case (Algorithm alg)
    show ?thesis
    proof (cases "alg_env alg")
      case None
      then show ?thesis using assms Some Algorithm by (simp add: learn_def same_shapes_refl)
    next
      case (Some e)
      let ?alg' = "alg\<lparr>alg_calls := Suc (alg_calls alg)\<rparr>"
      let ?h0 = "h[a := Algorithm ?alg']"
      have lk: "lookup h a = Some (Algorithm alg)" using \<open>lookup h a = Some x\<close> Algorithm by simp
      have s0: "same_shapes h ?h0" by (rule same_shapes_update[OF lk]) simp
      obtain r1 h1 where run: "run_learner (alg_learn alg (alg_calls alg) n kw) e ?h0 = (r1, h1)"
        by (cases "run_learner (alg_learn alg (alg_calls alg) n kw) e ?h0")
      have s1: "same_shapes h h1" using same_shapes_trans[OF s0 run_learner_shapes[OF run]] .
      show ?thesis
      proof (cases r1)
        case (Inl x)
        then show ?thesis using assms lk Some run s1 by (simp add: learn_def Let_def)
      next
        case (Inr p)
        then have "h' = h1[a := Algorithm (?alg'\<lparr>alg_policy := p\<rparr>)]"
          using assms lk Some run by (simp add: learn_def Let_def)
        then show ?thesis using same_shapes_update2[OF s1 lk, of "Algorithm (?alg'\<lparr>alg_policy := p\<rparr>)"]
          by simp
      qed
    qed
  qed (use assms Some in \<open>simp_all add: learn_def same_shapes_refl\<close>)
qed

lemma pop_shapes: "pop_trajectories r h = (res, h') \<Longrightarrow> same_shapes h h'"
  by (auto simp: pop_trajectories_def same_shapes_refl intro!: same_shapes_update
      split: option.splits obj.splits)

lemma train_shapes:
  assumes "train t n kw h = (r, h')"
  shows "same_shapes h h'"
proof -
  obtain r1 h1 where a: "env_reset (venv t) h = (r1, h1)" by (cases "env_reset (venv t) h")
  obtain r2 h2 where b: "learn (algorithm t) n kw h1 = (r2, h2)"
    by (cases "learn (algorithm t) n kw h1")
  obtain r3 h3 where c: "pop_trajectories (buffering_wrapper t) h2 = (r3, h3)"
    by (cases "pop_trajectories (buffering_wrapper t) h2")
  note s1 = env_reset_shapes[OF a]
  note s2 = same_shapes_trans[OF s1 learn_shapes[OF b]]
  note s3 = same_shapes_trans[OF s2 pop_shapes[OF c]]
  show ?thesis
    using assms a b c s1 s2 s3
    by (auto simp: train_def trainer_pop_trajectories_def split: sum.splits)
qed

lemma policy_same: "policy t h = (p, h') \<Longrightarrow> h' = h"
  by (auto simp: policy_def split: option.splits obj.splits)

lemma lifetime_shapes: "lifetime t h0 h \<Longrightarrow> same_shapes h0 h"
proof (induction rule: lifetime.induct)
  case created
  show ?case by (rule same_shapes_refl)
next
  case (trained h total_timesteps kwargs r h')
  show ?case by (rule same_shapes_trans[OF trained.IH train_shapes[OF trained.hyps(2)]])
next
  case (drained h r h')
  show ?case
    by (rule same_shapes_trans[OF drained.IH
          pop_shapes[OF drained.hyps(2)[unfolded trainer_pop_trajectories_def]]])
next
  case (policy_read h p h')
  show ?case using policy_read.IH policy_same[OF policy_read.hyps(2)] by simp
qed


lemma same_shape_AlgorithmD:
  "same_shape (Algorithm alg) y \<Longrightarrow>
     \<exists>alg'. y = Algorithm alg' \<and> alg_env alg' = alg_env alg \<and> alg_learn alg' = alg_learn alg"
  by (cases y) simp_all

lemma same_shape_RewardD:
  "same_shape (RewardVecEnvWrapper inner rf old) y \<Longrightarrow> \<exists>old'. y = RewardVecEnvWrapper inner rf old'"
  by (cases y) simp_all

lemma same_shape_BufferingD:
  "same_shape (BufferingWrapper inner b) y \<Longrightarrow> \<exists>b'. y = BufferingWrapper inner b'"
  by (cases y) simp_all

lemma same_shape_VecEnvD:
  "same_shape (VecEnv v) y \<Longrightarrow>
     \<exists>v'. y = VecEnv v' \<and> reset_fn v' = reset_fn v \<and> step_fn v' = step_fn v"
  by (cases y) simp_all

lemma same_shape_is_VecEnv: "same_shape x y \<Longrightarrow> is_VecEnv x \<Longrightarrow> is_VecEnv y"
  by (cases x; cases y) simp_all

lemma wrapping_shapes:
  assumes "wrapping t e h" "same_shapes h h'"
  shows "wrapping t e h'"
proof -
  from assms(1) obtain alg old b x where
    1: "lookup h (algorithm t) = Some (Algorithm alg)" "alg_env alg = Some (venv t)"
    and 2: "lookup h (venv t) = Some (RewardVecEnvWrapper (buffering_wrapper t) (reward_fn t) old)"
    and 3: "lookup h (buffering_wrapper t) = Some (BufferingWrapper e b)"
    and 4: "lookup h e = Some x" "is_VecEnv x"
    by (auto simp: wrapping_def isinstance_VecEnv_def split: option.splits)
  from same_shapes_lookup[OF assms(2) 1(1)] obtain alg' where
    a: "lookup h' (algorithm t) = Some (Algorithm alg')" "alg_env alg' = alg_env alg"
    using same_shape_AlgorithmD by blast
  from same_shapes_lookup[OF assms(2) 2] obtain old' where
    b: "lookup h' (venv t) = Some (RewardVecEnvWrapper (buffering_wrapper t) (reward_fn t) old')"
    using same_shape_RewardD by blast
  from same_shapes_lookup[OF assms(2) 3] obtain b' where
    c: "lookup h' (buffering_wrapper t) = Some (BufferingWrapper e b')"
    using same_shape_BufferingD by blast
  from same_shapes_lookup[OF assms(2) 4(1)] 4(2) obtain y where
    d: "lookup h' e = Some y" "is_VecEnv y"
    using same_shape_is_VecEnv by blast
  show ?thesis
    using a b c d 1(2) by (auto simp: wrapping_def isinstance_VecEnv_def)
qed

lemma init_success:
  assumes "AgentTrainer_init a src h0 = (Inr t, h1)"
  shows "\<exists>alg e. lookup h0 a = Some (Algorithm alg) \<and> alg_env alg = Some e \<and>
           isinstance_VecEnv h0 e \<and>
           t = \<lparr>algorithm = a,
                reward_fn = (case src of RewardNet m \<Rightarrow> predict m | RewardFn f \<Rightarrow> f),
                buffering_wrapper = length h0, venv = Suc (length h0)\<rparr> \<and>
           h1 = (h0 @ [BufferingWrapper e new_buffer,
                       RewardVecEnvWrapper (length h0) (reward_fn t) None])
                [a := Algorithm (alg\<lparr>alg_env := Some (Suc (length h0))\<rparr>)]"
  using assms
  by (auto simp: AgentTrainer_init_def Let_def alloc_def set_env_def get_env_def lookup_append2
      split: sum.splits option.splits obj.splits if_splits)

lemma tower_inv_shapes:
  assumes "tower_inv t e h" "same_shapes h h'"
  shows "tower_inv t e h'"
proof -
  from assms(1) obtain v where v: "lookup h e = Some (VecEnv v)" by (auto simp: tower_inv_def)
  from same_shapes_lookup[OF assms(2) v] obtain v' where "lookup h' e = Some (VecEnv v')"
    using same_shape_VecEnvD by blast
  then show ?thesis
    using assms wrapping_shapes[of t e h h'] by (auto simp: tower_inv_def)
qed

lemma init_wrapping:
  assumes "AgentTrainer_init a src h0 = (Inr t, h1)" "get_env a h0 = Inr (Some e)"
  shows "wrapping t e h1" "algorithm t = a" "buffering_wrapper t = length h0"
    "venv t = Suc (length h0)" "e < length h0"
proof -
  from init_success[OF assms(1)] obtain alg e' where
    alg: "lookup h0 a = Some (Algorithm alg)" "alg_env alg = Some e'" "isinstance_VecEnv h0 e'"
    and t: "t = \<lparr>algorithm = a,
                reward_fn = (case src of RewardNet m \<Rightarrow> predict m | RewardFn f \<Rightarrow> f),
                buffering_wrapper = length h0, venv = Suc (length h0)\<rparr>"
    and h1: "h1 = (h0 @ [BufferingWrapper e' new_buffer,
                       RewardVecEnvWrapper (length h0) (reward_fn t) None])
                [a := Algorithm (alg\<lparr>alg_env := Some (Suc (length h0))\<rparr>)]"
    by blast
  have e: "e' = e" using assms(2) alg by (simp add: get_env_def)
  have a: "a < length h0" using alg(1) by (rule lookup_Some_less)
  obtain x where x: "lookup h0 e = Some x" "is_VecEnv x"
    using alg(3) e by (auto simp: isinstance_VecEnv_def split: option.splits)
  have el: "e < length h0" using x(1) by (rule lookup_Some_less)
  have ne: "e \<noteq> a" using x alg(1) by auto
  show "algorithm t = a" "buffering_wrapper t = length h0" "venv t = Suc (length h0)"
    by (simp_all add: t)
  show "e < length h0" by (rule el)
  show "wrapping t e h1"
    unfolding wrapping_def isinstance_VecEnv_def
    using a el ne x e
    by (simp add: h1 lookup_update lookup_append2) (simp add: t)
qed

lemma init_tower_inv:
  assumes "AgentTrainer_init a src h0 = (Inr t, h1)" "get_env a h0 = Inr (Some e)"
    "lookup h0 e = Some (VecEnv v)"
  shows "tower_inv t e h1"
proof -
  note w = init_wrapping[OF assms(1,2)]
  from init_success[OF assms(1)] obtain alg e' where
    alg: "lookup h0 a = Some (Algorithm alg)"
    and h1: "h1 = (h0 @ [BufferingWrapper e' new_buffer,
                       RewardVecEnvWrapper (length h0) (reward_fn t) None])
                [a := Algorithm (alg\<lparr>alg_env := Some (Suc (length h0))\<rparr>)]"
    by blast
  have ne: "e \<noteq> a" using assms(3) alg by auto
  have "lookup h1 e = Some (VecEnv v)"
    using assms(3) ne w(5) by (simp add: h1 lookup_update lookup_append2)
  then show ?thesis using w by (auto simp: tower_inv_def)
qed

lemma lifetime_tower_inv:
  assumes "AgentTrainer_init a src h0 = (Inr t, h1)" "get_env a h0 = Inr (Some e)"
    "lookup h0 e = Some (VecEnv v)" "lifetime t h1 h"
  shows "tower_inv t e h"
  using tower_inv_shapes[OF init_tower_inv[OF assms(1-3)] lifetime_shapes[OF assms(4)]] .

lemma lifetime_wrapping:
  assumes "AgentTrainer_init a src h0 = (Inr t, h1)" "get_env a h0 = Inr (Some e)"
    "lifetime t h1 h"
  shows "wrapping t e h"
  using wrapping_shapes[OF init_wrapping(1)[OF assms(1,2)] lifetime_shapes[OF assms(3)]] .

text \<open>
  Claim C2. In every store of the trainer's lifetime the algorithm's environment is the
  reward wrapper that the constructor created, which wraps the buffering wrapper that the
  constructor created, which wraps the environment the algorithm had before; the two
  wrappers did not exist before the construction. Train, the drain and reading the
  policy never change this order.
\<close>

theorem wrapping_order_fixed:
  assumes "AgentTrainer_init a src h0 = (Inr t, h1)" and "get_env a h0 = Inr (Some e)"
    and "lifetime t h1 h"
  shows "wrapping t e h \<and> lookup h0 (buffering_wrapper t) = None \<and> lookup h0 (venv t) = None"
  using lifetime_wrapping[OF assms] init_wrapping(3,4)[OF assms(1,2)]
  by (simp add: lookup_def)

text \<open>
  Claim C9. In every store of the trainer's lifetime, right after the construction as
  after any number of calls of train, the policy accessor returns the object that the
  algorithm's policy attribute holds in that store, and leaves the store as it is.
\<close>

theorem policy_reads_algorithm:
  assumes "AgentTrainer_init a src h0 = (Inr t, h1)" and "lifetime t h1 h"
  shows "\<exists>alg. lookup h (algorithm t) = Some (Algorithm alg)
           \<and> policy t h = (Inr (alg_policy alg), h)"
proof -
  from init_success[OF assms(1)] obtain alg e where
    "lookup h0 a = Some (Algorithm alg)" "alg_env alg = Some e" by blast
  then have "get_env a h0 = Inr (Some e)" by (simp add: get_env_def)
  from lifetime_wrapping[OF assms(1) this assms(2)] show ?thesis
    by (auto simp: wrapping_def policy_def)
qed

lemma put_tower_drain:
  assumes "e < bw" "bw < rw"
  shows "(put_tower e bw rw rf (v, b, old) h)[bw := BufferingWrapper e b'] =
           put_tower e bw rw rf (v, b', old) h"
  using assms by (auto simp: put_tower_def list_eq_iff_nth_eq nth_upd)

lemma pop_tower:
  assumes "e < bw" "bw < rw" "rw < length h"
  shows "pop_trajectories bw (put_tower e bw rw rf (v, b, old) h) =
           (Inr (queue b), put_tower e bw rw rf (v, b\<lparr>queue := []\<rparr>, old) h)"
  using lookup_put_tower(2)[OF assms, of rf v b old]
  by (simp add: pop_trajectories_def put_tower_drain[OF assms(1,2)])

lemma learn_tower:
  assumes a: "lookup h a = Some (Algorithm alg)" "alg_env alg = Some rw"
    and ne: "a \<noteq> e" "a \<noteq> bw" "a \<noteq> rw"
    and ord: "e < bw" "bw < rw" "rw < length h"
    and run: "tower_run (alg_learn alg (alg_calls alg) n kw) rf c1 = (r, c2)"
  shows "learn a n kw (put_tower e bw rw rf c1 h) =
     (case r of
        Inl x \<Rightarrow> (Inl x, put_tower e bw rw rf c2
                      (h[a := Algorithm (alg\<lparr>alg_calls := Suc (alg_calls alg)\<rparr>)]))
      | Inr p \<Rightarrow> (Inr (), put_tower e bw rw rf c2
                      (h[a := Algorithm (alg\<lparr>alg_calls := Suc (alg_calls alg), alg_policy := p\<rparr>)])))"
proof -
  let ?P = "put_tower e bw rw rf"
  let ?alg' = "alg\<lparr>alg_calls := Suc (alg_calls alg)\<rparr>"
  let ?h' = "h[a := Algorithm ?alg']"
  have lk: "lookup (?P c1 h) a = Some (Algorithm alg)"
    using a(1) ne by (simp add: lookup_put_tower_other)
  have h0: "(?P c1 h)[a := Algorithm ?alg'] = ?P c1 ?h'"
    using ne by (simp add: put_tower_update_other)
  have len: "rw < length ?h'" using ord by simp
  have rl: "run_learner (alg_learn alg (alg_calls alg) n kw) rw (?P c1 ?h') = (r, ?P c2 ?h')"
    using run_learner_tower[OF ord(1,2) len, of "alg_learn alg (alg_calls alg) n kw" rf c1] run
    by simp
  have fin: "(?P c2 ?h')[a := Algorithm (?alg'\<lparr>alg_policy := p\<rparr>)] =
        ?P c2 (h[a := Algorithm (alg\<lparr>alg_calls := Suc (alg_calls alg), alg_policy := p\<rparr>)])" for p
    using ne by (simp add: put_tower_update_other[symmetric])
  show ?thesis
    unfolding learn_def
    by (simp add: lk a(2) Let_def h0 rl fin split: sum.splits)
qed

lemma train_tower:
  assumes a: "lookup h (algorithm t) = Some (Algorithm alg)" "alg_env alg = Some (venv t)"
    and rw: "lookup h (venv t) =
               Some (RewardVecEnvWrapper (buffering_wrapper t) (reward_fn t) old)"
    and bw: "lookup h (buffering_wrapper t) = Some (BufferingWrapper e b)"
    and e: "lookup h e = Some (VecEnv v)"
    and ord: "e < buffering_wrapper t" "buffering_wrapper t < venv t"
    and run: "tower_run (alg_learn alg (alg_calls alg) n kw) (reward_fn t)
                (snd (tower_reset (v, b, old))) = (r, (v2, b2, old2))"
  shows "train t n kw h =
     (case r of
        Inl x \<Rightarrow>
          (Inl x, put_tower e (buffering_wrapper t) (venv t) (reward_fn t) (v2, b2, old2)
                    (h[algorithm t := Algorithm (alg\<lparr>alg_calls := Suc (alg_calls alg)\<rparr>)]))
      | Inr p \<Rightarrow>
          (Inr (queue b2),
           put_tower e (buffering_wrapper t) (venv t) (reward_fn t) (v2, b2\<lparr>queue := []\<rparr>, old2)
             (h[algorithm t := Algorithm (alg\<lparr>alg_calls := Suc (alg_calls alg), alg_policy := p\<rparr>)])))"
proof -
  let ?P = "put_tower e (buffering_wrapper t) (venv t) (reward_fn t)"
  let ?c1 = "snd (tower_reset (v, b, old))"
  have ne: "algorithm t \<noteq> e" "algorithm t \<noteq> buffering_wrapper t" "algorithm t \<noteq> venv t"
    using a(1) rw bw e by auto
  have len: "venv t < length h" using rw by (rule lookup_Some_less)
  have hid: "?P (v, b, old) h = h" by (rule put_tower_id[OF e bw rw])
  have reset: "env_reset (venv t) h = (Inr (fst (tower_reset (v, b, old))), ?P ?c1 h)"
    using env_reset_tower[OF ord len, of "reward_fn t" "(v, b, old)"] hid by simp
  note learn = learn_tower[OF a ne ord len run]
  show ?thesis
    unfolding train_def trainer_pop_trajectories_def
    by (simp add: reset learn pop_tower[OF ord] len split: sum.splits)
qed

lemma tower_invE:
  assumes "tower_inv t e h"
  obtains alg old b v where
    "lookup h (algorithm t) = Some (Algorithm alg)" "alg_env alg = Some (venv t)"
    "lookup h (venv t) = Some (RewardVecEnvWrapper (buffering_wrapper t) (reward_fn t) old)"
    "lookup h (buffering_wrapper t) = Some (BufferingWrapper e b)"
    "lookup h e = Some (VecEnv v)"
    "e < buffering_wrapper t" "buffering_wrapper t < venv t"
  using assms unfolding tower_inv_def wrapping_def by blast

text \<open>What one call of train does, seen on the tower.\<close>

lemma tower_call_facts:
  assumes "tower_run l rf (snd (tower_reset (v, b, old))) = (r, (v2, b2, old2))"
  shows "\<exists>ob evs. history v2 = history v @ EvReset ob # evs \<and>
           next_id b \<le> next_id b2 \<and>
           (\<exists>m\<ge>next_id b. m \<le> next_id b2 \<and> map traj_id (queue b2) = [m..<next_id b2]) \<and>
           (\<forall>T \<in> set (queue b2).
               set (steps T) \<subseteq> fst ` set (all_transitions evs) \<and>
               ends_done (all_transitions evs) T)"
proof -
  obtain ob c1 where r: "tower_reset (v, b, old) = (ob, c1)" by (cases "tower_reset (v, b, old)")
  obtain v1 b1 old1 where c1: "c1 = (v1, b1, old1)" by (cases c1)
  have b1: "b1 = clear b" and v1: "history v1 = history v @ [EvReset ob]"
    using r c1 by (auto simp: tower_reset_def case_prod_beta)
  from tower_run_grows[of l rf c1 r "(v2, b2, old2)" "next_id b"] assms r
  obtain evs where g: "grows (next_id b) evs c1 (v2, b2, old2)" by auto
  have ids: "ids_from (next_id b) b1" using ids_from_start[of b1] b1 by simp
  have rec: "recorded b2 \<subseteq> fst ` set (all_transitions evs)"
    using g b1 c1 by (simp add: grows_def)
  have "\<forall>T \<in> set (queue b2). set (steps T) \<subseteq> recorded b2"
    by (auto simp: recorded_def)
  with rec have st: "\<forall>T \<in> set (queue b2). set (steps T) \<subseteq> fst ` set (all_transitions evs)"
    by blast
  have en: "\<forall>T \<in> set (queue b2). ends_done (all_transitions evs) T"
    using g b1 c1 by (simp add: grows_def)
  have "history v2 = history v @ EvReset ob # evs" "next_id b \<le> next_id b2"
    "ids_from (next_id b) b2"
    using g c1 v1 b1 ids by (simp_all add: grows_def)
  then show ?thesis using st en unfolding ids_from_def by blast
qed

lemma history_at_put_tower:
  assumes "e < bw" "bw < rw" "rw < length h"
  shows "history_at e (put_tower e bw rw rf (v, b, old) h) = history v"
  using lookup_put_tower(1)[OF assms, of rf v b old] by (simp add: history_at_def)

lemma next_id_at_put_tower:
  assumes "e < bw" "bw < rw" "rw < length h"
  shows "next_id_at bw (put_tower e bw rw rf (v, b, old) h) = next_id b"
  using lookup_put_tower(2)[OF assms, of rf v b old] by (simp add: next_id_at_def)

text \<open>The same on the store, for either outcome of the call.\<close>

lemma train_facts:
  assumes inv: "tower_inv t e h" and tr: "train t n kw h = (res, h')"
  shows "\<exists>ob evs b'. new_events e h h' = EvReset ob # evs \<and>
           lookup h' (buffering_wrapper t) = Some (BufferingWrapper e b') \<and>
           next_id_at (buffering_wrapper t) h \<le> next_id b' \<and>
           (\<exists>m\<ge>next_id_at (buffering_wrapper t) h. m \<le> next_id b' \<and>
               map traj_id (case res of Inl x \<Rightarrow> queue b' | Inr trajs \<Rightarrow> trajs) = [m..<next_id b']) \<and>
           (\<forall>T \<in> set (case res of Inl x \<Rightarrow> queue b' | Inr trajs \<Rightarrow> trajs).
               set (steps T) \<subseteq> fst ` set (all_transitions evs) \<and>
               ends_done (all_transitions evs) T) \<and>
           (case res of Inl x \<Rightarrow> True | Inr trajs \<Rightarrow> queue b' = [])"
proof -
  from inv obtain alg old b v where
    a: "lookup h (algorithm t) = Some (Algorithm alg)" "alg_env alg = Some (venv t)"
    and rw: "lookup h (venv t) = Some (RewardVecEnvWrapper (buffering_wrapper t) (reward_fn t) old)"
    and bw: "lookup h (buffering_wrapper t) = Some (BufferingWrapper e b)"
    and e: "lookup h e = Some (VecEnv v)"
    and ord: "e < buffering_wrapper t" "buffering_wrapper t < venv t"
    by (rule tower_invE)
  let ?l = "alg_learn alg (alg_calls alg) n kw"
  obtain r v2 b2 old2 where
    run: "tower_run ?l (reward_fn t) (snd (tower_reset (v, b, old))) = (r, (v2, b2, old2))"
    by (metis prod_cases3 surj_pair)
  note tt = train_tower[OF a rw bw e ord run]
  from tower_call_facts[OF run] obtain ob evs m where
    f: "history v2 = history v @ EvReset ob # evs" "next_id b \<le> next_id b2"
      "next_id b \<le> m" "m \<le> next_id b2" "map traj_id (queue b2) = [m..<next_id b2]"
      "\<forall>T \<in> set (queue b2). set (steps T) \<subseteq> fst ` set (all_transitions evs) \<and>
               ends_done (all_transitions evs) T"
    by blast
  have len: "venv t < length h" using rw by (rule lookup_Some_less)
  have hh: "history_at e h = history v" using e by (simp add: history_at_def)
  have nh: "next_id_at (buffering_wrapper t) h = next_id b" using bw by (simp add: next_id_at_def)
  show ?thesis
  proof (cases r)
    case (Inl x)
    let ?h1 = "h[algorithm t := Algorithm (alg\<lparr>alg_calls := Suc (alg_calls alg)\<rparr>)]"
    have len1: "venv t < length ?h1" using len by simp
    have res: "res = Inl x"
      and h': "h' = put_tower e (buffering_wrapper t) (venv t) (reward_fn t) (v2, b2, old2) ?h1"
      using tt tr Inl by simp_all
    have "new_events e h h' = EvReset ob # evs"
      by (simp add: new_events_def hh h' history_at_put_tower[OF ord len1] f(1))
    moreover have "lookup h' (buffering_wrapper t) = Some (BufferingWrapper e b2)"
      unfolding h' by (rule lookup_put_tower(2)[OF ord len1])
    ultimately show ?thesis using f res nh by auto
  next
    case (Inr p)
    let ?h1 = "h[algorithm t := Algorithm (alg\<lparr>alg_calls := Suc (alg_calls alg), alg_policy := p\<rparr>)]"
    have len1: "venv t < length ?h1" using len by simp
    have res: "res = Inr (queue b2)"
      and h': "h' = put_tower e (buffering_wrapper t) (venv t) (reward_fn t)
                      (v2, b2\<lparr>queue := []\<rparr>, old2) ?h1"
      using tt tr Inr by simp_all
    have "new_events e h h' = EvReset ob # evs"
      by (simp add: new_events_def hh h' history_at_put_tower[OF ord len1] f(1))
    moreover have "lookup h' (buffering_wrapper t) = Some (BufferingWrapper e (b2\<lparr>queue := []\<rparr>))"
      unfolding h' by (rule lookup_put_tower(2)[OF ord len1])
    ultimately show ?thesis using f res nh by auto
  qed
qed

lemma ex_init: "AgentTrainer_init 1 (RewardFn ex_reward) ex_heap = (Inr ex_trainer, ex_heap1)"
  by (simp add: AgentTrainer_init_def get_env_def set_env_def alloc_def lookup_def
      isinstance_VecEnv_def ex_heap_def ex_algorithm_def ex_trainer_def ex_heap1_def)

lemma ex_get_env: "get_env 1 ex_heap = Inr (Some 0)"
  by (simp add: get_env_def lookup_def ex_heap_def ex_algorithm_def)

lemma ex_raw: "lookup ex_heap 0 = Some (VecEnv ex_env)"
  by (simp add: lookup_def ex_heap_def)

lemma ex_train1:
  "fst (train ex_trainer 3 () ex_heap1) =
     Inr [\<lparr>traj_id = 0, steps = [(1, 0, 1, ()), (2, 0, 1, ())], terminal = True\<rparr>]"
  by code_simp

lemma ex_events1:
  "all_transitions (new_events 0 ex_heap1 (snd (train ex_trainer 3 () ex_heap1))) =
     [((1, 0, 1, ()), False), ((1, 0, 1, ()), False),
      ((2, 0, 1, ()), True), ((2, 0, 1, ()), False),
      ((3, 0, 1, ()), False), ((3, 0, 1, ()), False)]"
  by code_simp

lemma train_unpack:
  assumes inv: "tower_inv t e h" and tr: "train t n kw h = (res, h')"
  obtains alg v b old r v2 b2 old2 where
    "lookup h (algorithm t) = Some (Algorithm alg)"
    "lookup h (buffering_wrapper t) = Some (BufferingWrapper e b)"
    "lookup h e = Some (VecEnv v)"
    "tower_run (alg_learn alg (alg_calls alg) n kw) (reward_fn t)
       (snd (tower_reset (v, b, old))) = (r, (v2, b2, old2))"
    "history_at e h = history v" "history_at e h' = history v2"
    "res = (case r of Inl x \<Rightarrow> Inl x | Inr p \<Rightarrow> Inr (queue b2))"
    "lookup h' (buffering_wrapper t) =
       Some (BufferingWrapper e (case r of Inl x \<Rightarrow> b2 | Inr p \<Rightarrow> b2\<lparr>queue := []\<rparr>))"
proof -
  from inv obtain alg old b v where
    a: "lookup h (algorithm t) = Some (Algorithm alg)" "alg_env alg = Some (venv t)"
    and rw: "lookup h (venv t) = Some (RewardVecEnvWrapper (buffering_wrapper t) (reward_fn t) old)"
    and bw: "lookup h (buffering_wrapper t) = Some (BufferingWrapper e b)"
    and e: "lookup h e = Some (VecEnv v)"
    and ord: "e < buffering_wrapper t" "buffering_wrapper t < venv t"
    by (rule tower_invE)
  let ?l = "alg_learn alg (alg_calls alg) n kw"
  obtain r v2 b2 old2 where
    run: "tower_run ?l (reward_fn t) (snd (tower_reset (v, b, old))) = (r, (v2, b2, old2))"
    by (metis prod_cases3 surj_pair)
  note tt = train_tower[OF a rw bw e ord run]
  have len: "venv t < length h" using rw by (rule lookup_Some_less)
  have hh: "history_at e h = history v" using e by (simp add: history_at_def)
  have "history_at e h' = history v2 \<and>
        res = (case r of Inl x \<Rightarrow> Inl x | Inr p \<Rightarrow> Inr (queue b2)) \<and>
        lookup h' (buffering_wrapper t) =
          Some (BufferingWrapper e (case r of Inl x \<Rightarrow> b2 | Inr p \<Rightarrow> b2\<lparr>queue := []\<rparr>))"
  proof (cases r)
    case (Inl x)
    let ?h1 = "h[algorithm t := Algorithm (alg\<lparr>alg_calls := Suc (alg_calls alg)\<rparr>)]"
    have len1: "venv t < length ?h1" using len by simp
    have "res = Inl x"
      and h': "h' = put_tower e (buffering_wrapper t) (venv t) (reward_fn t) (v2, b2, old2) ?h1"
      using tt tr Inl by simp_all
    then show ?thesis
      using Inl lookup_put_tower(2)[OF ord len1, of "reward_fn t" v2 b2 old2]
      by (simp add: history_at_put_tower[OF ord len1])
  next
    case (Inr p)
    let ?h1 = "h[algorithm t := Algorithm (alg\<lparr>alg_calls := Suc (alg_calls alg), alg_policy := p\<rparr>)]"
    have len1: "venv t < length ?h1" using len by simp
    have "res = Inr (queue b2)"
      and h': "h' = put_tower e (buffering_wrapper t) (venv t) (reward_fn t)
                      (v2, b2\<lparr>queue := []\<rparr>, old2) ?h1"
      using tt tr Inr by simp_all
    then show ?thesis
      using Inr lookup_put_tower(2)[OF ord len1, of "reward_fn t" v2 "b2\<lparr>queue := []\<rparr>" old2]
      by (simp add: history_at_put_tower[OF ord len1])
  qed
  then show ?thesis using that[OF a(1) bw e run hh] by blast
qed




lemma replay_append: "replay (xs @ ys) b = replay ys (replay xs b)"
  by (induction xs b rule: replay.induct) simp_all

lemma tower_step_replay:
  assumes "tower_step rf acts c = (r, c')"
  shows "\<exists>res. history (fst c') = history (fst c) @ [EvStep acts res] \<and>
           fst (snd c') = record_step acts res (fst (snd c))"
  using assms
  by (cases c)
    (auto simp: tower_step_def case_prod_beta Let_def split: option.splits sum.splits)

lemma tower_run_replay:
  "tower_run l rf c = (r, c') \<Longrightarrow>
     \<exists>evs. history (fst c') = history (fst c) @ evs \<and> fst (snd c') = replay evs (fst (snd c))"
proof (induction l arbitrary: c)
  case (Step acts k)
  obtain r1 c1 where s: "tower_step rf acts c = (r1, c1)" by (cases "tower_step rf acts c")
  from tower_step_replay[OF s] obtain res where
    1: "history (fst c1) = history (fst c) @ [EvStep acts res]"
       "fst (snd c1) = record_step acts res (fst (snd c))"
    by blast
  show ?case
  proof (cases r1)
    case (Inl x)
    then have "c' = c1" using Step.prems s by simp
    then show ?thesis using 1 by (intro exI[of _ "[EvStep acts res]"]) simp
  next
    case (Inr res')
    then have run: "tower_run (k res') rf c1 = (r, c')" using Step.prems s by simp
    from Step.IH[OF _ run] obtain evs where
      2: "history (fst c') = history (fst c1) @ evs" "fst (snd c') = replay evs (fst (snd c1))"
      by blast
    show ?thesis using 1 2 by (intro exI[of _ "EvStep acts res # evs"]) simp
  qed
next
  case (Reset k)
  obtain ob c1 where s: "tower_reset c = (ob, c1)" by (cases "tower_reset c")
  have 1: "history (fst c1) = history (fst c) @ [EvReset ob]" "fst (snd c1) = clear (fst (snd c))"
    using s by (auto simp: tower_reset_def case_prod_beta)
  have run: "tower_run (k ob) rf c1 = (r, c')" using Reset.prems s by simp
  from Reset.IH[OF _ run] obtain evs where
    2: "history (fst c') = history (fst c1) @ evs" "fst (snd c') = replay evs (fst (snd c1))"
    by blast
  show ?case using 1 2 by (intro exI[of _ "EvReset ob # evs"]) simp
next
  case (Done p)
  then show ?case by (intro exI[of _ "[]"]) auto
next
  case (Fail x)
  then show ?case by (intro exI[of _ "[]"]) auto
qed

lemma train_replay:
  assumes inv: "tower_inv t e h" and tr: "train t n kw h = (Inr trajs, h')"
  shows "\<exists>b. lookup h (buffering_wrapper t) = Some (BufferingWrapper e b)
           \<and> trajs = queue (replay (new_events e h h') b)"
proof -
  obtain alg' v' b old r v2 b2 old2 where
    "lookup h (algorithm t) = Some (Algorithm alg')"
    and ub: "lookup h (buffering_wrapper t) = Some (BufferingWrapper e b)"
    and "lookup h e = Some (VecEnv v')"
    and u2: "tower_run (alg_learn alg' (alg_calls alg') n kw) (reward_fn t)
         (snd (tower_reset (v', b, old))) = (r, (v2, b2, old2))"
    and u3: "history_at e h = history v'" and u4: "history_at e h' = history v2"
    and u5: "Inr trajs = (case r of Inl x \<Rightarrow> Inl x | Inr p \<Rightarrow> Inr (queue b2))"
    and "lookup h' (buffering_wrapper t) =
       Some (BufferingWrapper e (case r of Inl x \<Rightarrow> b2 | Inr p \<Rightarrow> b2\<lparr>queue := []\<rparr>))"
    by (rule train_unpack[OF inv tr])
  have tq: "trajs = queue b2" using u5 by (cases r) simp_all
  let ?c1 = "snd (tower_reset (v', b, old))"
  have c1: "history (fst ?c1) = history v' @ [EvReset (fst (tower_reset (v', b, old)))]"
    "fst (snd ?c1) = clear b"
    by (simp_all add: tower_reset_def case_prod_beta)
  from tower_run_replay[OF u2] obtain evs where
    "history v2 = history (fst ?c1) @ evs" "b2 = replay evs (fst (snd ?c1))"
    by auto
  then have "b2 = replay (new_events e h h') b"
    using c1 u3 u4 by (simp add: new_events_def)
  then show ?thesis using ub tq by blast
qed

text \<open>
  Claim C1. Every step recorded in a trajectory that train returns is a transition
  that the original environment itself returned during that call: its observation,
  the action, its reward and its info record. And the returned list is exactly the
  queue that recording the environment's own events of the call, in their order, gives.
  The reward function does not occur in the statement: whatever it computes, the
  recorded rewards are the environment's.
\<close>

theorem train_returns_true_rewards:
  assumes "AgentTrainer_init a src h0 = (Inr t, h1)" and "get_env a h0 = Inr (Some e)"
    and "lookup h0 e = Some (VecEnv v)" and "lifetime t h1 h"
    and "train t total_timesteps kwargs h = (Inr trajs, h')"
  shows "(\<forall>T \<in> set trajs. \<forall>tr \<in> set (steps T).
            tr \<in> fst ` set (all_transitions (new_events e h h')))
         \<and> (\<exists>b. lookup h (buffering_wrapper t) = Some (BufferingWrapper e b)
               \<and> trajs = queue (replay (new_events e h h') b))"
proof -
  note inv = lifetime_tower_inv[OF assms(1-4)]
  from train_facts[OF inv assms(5)]
  have "\<forall>T \<in> set trajs. \<forall>tr \<in> set (steps T).
            tr \<in> fst ` set (all_transitions (new_events e h h'))"
    by fastforce
  then show ?thesis using train_replay[OF inv assms(5)] by simp
qed














text \<open>
  Claim C7. When the algorithm's learn raises, train returns that very exception and
  the store as learn left it: train neither calls learn again nor touches the buffer.
  The trajectories finalized before the failure are still queued, and a drain returns
  exactly them.
\<close>

theorem train_propagates_learn_error:
  assumes "AgentTrainer_init a src h0 = (Inr t, h1)" and "get_env a h0 = Inr (Some e)"
    and "lookup h0 e = Some (VecEnv v)" and "lifetime t h1 h"
    and "learn (algorithm t) total_timesteps kwargs (snd (env_reset (venv t) h)) = (Inl x, hl)"
  shows "train t total_timesteps kwargs h = (Inl x, hl)
         \<and> (\<exists>bl. lookup hl (buffering_wrapper t) = Some (BufferingWrapper e bl)
               \<and> trainer_pop_trajectories t hl =
                   (Inr (queue bl),
                    hl[buffering_wrapper t := BufferingWrapper e (bl\<lparr>queue := []\<rparr>)]))"
proof -
  note inv = lifetime_tower_inv[OF assms(1-4)]
  obtain rr hr where r: "env_reset (venv t) h = (rr, hr)" by (cases "env_reset (venv t) h")
  from inv obtain alg old b v' where
    rw: "lookup h (venv t) = Some (RewardVecEnvWrapper (buffering_wrapper t) (reward_fn t) old)"
    and bw: "lookup h (buffering_wrapper t) = Some (BufferingWrapper e b)"
    and e: "lookup h e = Some (VecEnv v')"
    and ord: "e < buffering_wrapper t" "buffering_wrapper t < venv t"
    by (rule tower_invE)
  have len: "venv t < length h" using rw by (rule lookup_Some_less)
  have "env_reset (venv t) h =
      (Inr (fst (tower_reset (v', b, old))),
       put_tower e (buffering_wrapper t) (venv t) (reward_fn t) (snd (tower_reset (v', b, old))) h)"
    using env_reset_tower[OF ord len, of "reward_fn t" "(v', b, old)"] put_tower_id[OF e bw rw]
    by simp
  then obtain ob where rr: "rr = Inr ob" using r by simp
  have l: "learn (algorithm t) total_timesteps kwargs hr = (Inl x, hl)" using assms(5) r by simp
  have tr: "train t total_timesteps kwargs h = (Inl x, hl)"
    by (simp add: train_def r rr l)
  have "tower_inv t e hl"
    by (rule tower_inv_shapes[OF inv same_shapes_trans[OF env_reset_shapes[OF r] learn_shapes[OF l]]])
  then obtain bl where "lookup hl (buffering_wrapper t) = Some (BufferingWrapper e bl)"
    by (auto elim: tower_invE)
  then show ?thesis using tr
    by (simp add: trainer_pop_trajectories_def pop_trajectories_def)
qed

text \<open>
  Claim C5. A call of train does three things in this order. It resets the chain
  through the trainer's own handle, which leaves the buffer with an empty queue and no
  partial episode. It then runs the algorithm's learn, whose behaviour is the one the
  algorithm has for exactly these \<open>total_timesteps\<close> and keyword arguments, on the reward
  wrapper. If learn returns, train drains the buffer: it returns the queue that learn left
  and empties it.
\<close>

theorem train_resets_learns_drains:
  assumes "AgentTrainer_init a src h0 = (Inr t, h1)" and "get_env a h0 = Inr (Some e)"
    and "lookup h0 e = Some (VecEnv v)" and "lifetime t h1 h"
    and "lookup h (algorithm t) = Some (Algorithm alg)"
  shows "\<exists>ob hr br r hl.
           env_reset (venv t) h = (Inr ob, hr)
           \<and> lookup hr (buffering_wrapper t) = Some (BufferingWrapper e br)
           \<and> queue br = [] \<and> (\<forall>i. partial br i = [])
           \<and> run_learner (alg_learn alg (alg_calls alg) total_timesteps kwargs) (venv t)
                 (hr[algorithm t := Algorithm (alg\<lparr>alg_calls := Suc (alg_calls alg)\<rparr>)])
               = (r, hl)
           \<and> (case r of
                 Inl x \<Rightarrow> train t total_timesteps kwargs h = (Inl x, hl)
               | Inr p \<Rightarrow>
                   (\<exists>bl. lookup hl (buffering_wrapper t) = Some (BufferingWrapper e bl)
                      \<and> train t total_timesteps kwargs h =
                          (Inr (queue bl),
                           hl[algorithm t := Algorithm (alg\<lparr>alg_calls := Suc (alg_calls alg),
                                                            alg_policy := p\<rparr>),
                              buffering_wrapper t := BufferingWrapper e (bl\<lparr>queue := []\<rparr>)])))"
proof -
  note inv = lifetime_tower_inv[OF assms(1-4)]
  from inv obtain alg' old b v' where
    a': "lookup h (algorithm t) = Some (Algorithm alg')" "alg_env alg' = Some (venv t)"
    and rw: "lookup h (venv t) = Some (RewardVecEnvWrapper (buffering_wrapper t) (reward_fn t) old)"
    and bw: "lookup h (buffering_wrapper t) = Some (BufferingWrapper e b)"
    and e: "lookup h e = Some (VecEnv v')"
    and ord: "e < buffering_wrapper t" "buffering_wrapper t < venv t"
    by (rule tower_invE)
  have alg: "alg' = alg" using a'(1) assms(5) by simp
  note a = a'[unfolded alg]
  let ?P = "put_tower e (buffering_wrapper t) (venv t) (reward_fn t)"
  let ?c1 = "snd (tower_reset (v', b, old))"
  let ?l = "alg_learn alg (alg_calls alg) total_timesteps kwargs"
  let ?alg1 = "alg\<lparr>alg_calls := Suc (alg_calls alg)\<rparr>"
  let ?h1 = "h[algorithm t := Algorithm ?alg1]"
  have ne: "algorithm t \<noteq> e" "algorithm t \<noteq> buffering_wrapper t" "algorithm t \<noteq> venv t"
    using a(1) rw bw e by auto
  have len: "venv t < length h" using rw by (rule lookup_Some_less)
  have len1: "venv t < length ?h1" using len by simp
  obtain r v2 b2 old2 where run: "tower_run ?l (reward_fn t) ?c1 = (r, (v2, b2, old2))"
    by (metis prod_cases3 surj_pair)
  have reset: "env_reset (venv t) h = (Inr (fst (tower_reset (v', b, old))), ?P ?c1 h)"
    using env_reset_tower[OF ord len, of "reward_fn t" "(v', b, old)"] put_tower_id[OF e bw rw]
    by simp
  have c1: "?c1 = (fst ?c1, clear b, snd (snd ?c1))"
    by (simp add: tower_reset_def case_prod_beta)
  have br: "lookup (?P ?c1 h) (buffering_wrapper t) = Some (BufferingWrapper e (clear b))"
    using lookup_put_tower(2)[OF ord len, of "reward_fn t" "fst ?c1" "clear b" "snd (snd ?c1)"] c1
    by simp
  have upd: "(?P ?c1 h)[algorithm t := Algorithm ?alg1] = ?P ?c1 ?h1"
    using ne by (simp add: put_tower_update_other)
  have rl: "run_learner ?l (venv t) (?P ?c1 ?h1) = (r, ?P (v2, b2, old2) ?h1)"
    using run_learner_tower[OF ord len1, of ?l "reward_fn t" ?c1] run by simp
  note tt = train_tower[OF a rw bw e ord run]
  have bl: "lookup (?P (v2, b2, old2) ?h1) (buffering_wrapper t) = Some (BufferingWrapper e b2)"
    by (rule lookup_put_tower(2)[OF ord len1])
  have fin: "(?P (v2, b2, old2) ?h1)
                [algorithm t := Algorithm (alg\<lparr>alg_calls := Suc (alg_calls alg), alg_policy := p\<rparr>),
                 buffering_wrapper t := BufferingWrapper e (b2\<lparr>queue := []\<rparr>)]
             = ?P (v2, b2\<lparr>queue := []\<rparr>, old2)
                 (h[algorithm t := Algorithm (alg\<lparr>alg_calls := Suc (alg_calls alg), alg_policy := p\<rparr>)])"
    for p
    using ne ord by (auto simp: put_tower_def list_eq_iff_nth_eq nth_upd)
  have last: "case r of
                 Inl x \<Rightarrow> train t total_timesteps kwargs h = (Inl x, ?P (v2, b2, old2) ?h1)
               | Inr p \<Rightarrow>
                   (\<exists>bl. lookup (?P (v2, b2, old2) ?h1) (buffering_wrapper t)
                            = Some (BufferingWrapper e bl)
                      \<and> train t total_timesteps kwargs h =
                          (Inr (queue bl),
                           (?P (v2, b2, old2) ?h1)
                             [algorithm t := Algorithm (alg\<lparr>alg_calls := Suc (alg_calls alg),
                                                            alg_policy := p\<rparr>),
                              buffering_wrapper t := BufferingWrapper e (bl\<lparr>queue := []\<rparr>)]))"
    using tt bl by (cases r) (simp_all add: fin)
  show ?thesis
    apply (rule exI[of _ "fst (tower_reset (v', b, old))"])
    apply (rule exI[of _ "?P ?c1 h"])
    apply (rule exI[of _ "clear b"])
    apply (rule exI[of _ r])
    apply (rule exI[of _ "?P (v2, b2, old2) ?h1"])
    using reset br rl last by (simp add: upd)
qed

text \<open>
  Claim C10. The constructor succeeds for every reward source, as soon as the
  algorithm's environment is a vectorized environment: it stores the reward function
  and never calls it. With a reward function that raises on every call this can be
  observed: the constructor and the reset at the head of train succeed, and the first
  step of the chain raises the reward function's exception.
\<close>

theorem init_never_calls_reward:
  assumes "get_env a h = Inr (Some e)" and "lookup h e = Some (VecEnv v)"
  shows "(\<exists>t h1. AgentTrainer_init a src h = (Inr t, h1))
         \<and> (\<forall>t h1. AgentTrainer_init a src h = (Inr t, h1) \<longrightarrow>
              (\<forall>cur acts nxt ds.
                  (case src of RewardNet m \<Rightarrow> predict m | RewardFn f \<Rightarrow> f) cur acts nxt ds = Inl x) \<longrightarrow>
              (\<exists>ob hr. env_reset (venv t) h1 = (Inr ob, hr)
                  \<and> (\<forall>acts. fst (env_step (venv t) acts hr) = Inl x)))"
proof -
  from assms(1) obtain alg where
    alg: "lookup h a = Some (Algorithm alg)" "alg_env alg = Some e"
    by (auto simp: get_env_def split: option.splits obj.splits)
  have vec: "isinstance_VecEnv h e" using assms(2) by (simp add: isinstance_VecEnv_def)
  have al: "a < length h" using alg(1) by (rule lookup_Some_less)
  have ex: "\<exists>t h1. AgentTrainer_init a src h = (Inr t, h1)"
    using assms(1) vec alg(1) al
    by (simp add: AgentTrainer_init_def Let_def alloc_def set_env_def lookup_update lookup_append2)
  have "\<exists>ob hr. env_reset (venv t) h1 = (Inr ob, hr)
                  \<and> (\<forall>acts. fst (env_step (venv t) acts hr) = Inl x)"
    if init: "AgentTrainer_init a src h = (Inr t, h1)"
      and raises: "\<forall>cur acts nxt ds.
        (case src of RewardNet m \<Rightarrow> predict m | RewardFn f \<Rightarrow> f) cur acts nxt ds = Inl x"
    for t h1
  proof -
    have rf: "reward_fn t = (case src of RewardNet m \<Rightarrow> predict m | RewardFn f \<Rightarrow> f)"
      using init_success[OF init] by auto
    from init_tower_inv[OF init assms] obtain alg' old b v' where
      rw: "lookup h1 (venv t) = Some (RewardVecEnvWrapper (buffering_wrapper t) (reward_fn t) old)"
      and bw: "lookup h1 (buffering_wrapper t) = Some (BufferingWrapper e b)"
      and e: "lookup h1 e = Some (VecEnv v')"
      and ord: "e < buffering_wrapper t" "buffering_wrapper t < venv t"
      by (rule tower_invE)
    let ?P = "put_tower e (buffering_wrapper t) (venv t) (reward_fn t)"
    let ?c1 = "snd (tower_reset (v', b, old))"
    have len: "venv t < length h1" using rw by (rule lookup_Some_less)
    have reset: "env_reset (venv t) h1 = (Inr (fst (tower_reset (v', b, old))), ?P ?c1 h1)"
      using env_reset_tower[OF ord len, of "reward_fn t" "(v', b, old)"] put_tower_id[OF e bw rw]
      by simp
    have "fst (tower_step (reward_fn t) acts ?c1) = Inl x" for acts
      using raises
      by (simp add: rf tower_step_def tower_reset_def case_prod_beta Let_def)
    then have "fst (env_step (venv t) acts (?P ?c1 h1)) = Inl x" for acts
      by (simp add: env_step_tower[OF ord len])
    then show ?thesis using reset by blast
  qed
  then show ?thesis using ex by blast
qed

lemma ex_raising_init:
  "AgentTrainer_init 1 (RewardFn ex_raising) ex_heap = (Inr ex_raising_trainer, ex_raising_heap)"
  by (simp add: AgentTrainer_init_def get_env_def set_env_def alloc_def lookup_def
      isinstance_VecEnv_def ex_heap_def ex_algorithm_def ex_raising_trainer_def
      ex_raising_heap_def)

lemma ex_raising_train:
  "fst (train ex_raising_trainer 3 () ex_raising_heap) = Inl (Exception 3)"
  by code_simp

theorem init_never_calls_reward_witness:
  "AgentTrainer_init 1 (RewardFn ex_raising) ex_heap = (Inr ex_raising_trainer, ex_raising_heap)
   \<and> (\<forall>cur acts nxt ds. ex_raising cur acts nxt ds = Inl (Exception 3))
   \<and> (\<exists>ob hr. env_reset (venv ex_raising_trainer) ex_raising_heap = (Inr ob, hr)
         \<and> (\<forall>acts. fst (env_step (venv ex_raising_trainer) acts hr) = Inl (Exception 3)))
   \<and> fst (train ex_raising_trainer 3 () ex_raising_heap) = Inl (Exception 3)"
proof -
  have r: "\<forall>cur acts nxt ds. ex_raising cur acts nxt ds = Inl (Exception 3)"
    by (simp add: ex_raising_def)
  show ?thesis
    using init_never_calls_reward[OF ex_get_env ex_raw, of "RewardFn ex_raising" "Exception 3"]
      ex_raising_init ex_raising_train r
    by simp
qed

section \<open>The statements on the example system\<close>

lemma ex_train1_pair:
  "train ex_trainer 3 () ex_heap1 =
     (Inr [\<lparr>traj_id = 0, steps = [(1, 0, 1, ()), (2, 0, 1, ())], terminal = True\<rparr>], ex_heap2)"
  using ex_train1 unfolding ex_heap2_def by (metis prod.collapse)

lemma ex_train2: "fst (train ex_trainer 3 () ex_heap2) = Inl (Exception 4)"
  unfolding ex_heap2_def by code_simp

lemma ex_train2_pair: "train ex_trainer 3 () ex_heap2 = (Inl (Exception 4), ex_heap3)"
  using ex_train2 unfolding ex_heap3_def by (metis prod.collapse)



lemma ex_life2: "lifetime ex_trainer ex_heap1 ex_heap2"
  by (rule lifetime.trained[OF lifetime.created ex_train1_pair])


lemma ex_replay1:
  "queue (replay (new_events 0 ex_heap1 ex_heap2) new_buffer) =
     [\<lparr>traj_id = 0, steps = [(1, 0, 1, ()), (2, 0, 1, ())], terminal = True\<rparr>]"
  unfolding ex_heap2_def by code_simp

theorem train_returns_true_rewards_witness:
  "fst (train ex_trainer 3 () ex_heap1) =
     Inr [\<lparr>traj_id = 0, steps = [(1, 0, 1, ()), (2, 0, 1, ())], terminal = True\<rparr>]
   \<and> (1, 0, 1, ()) \<in> fst ` set (all_transitions (new_events 0 ex_heap1 ex_heap2))
   \<and> (2, 0, 1, ()) \<in> fst ` set (all_transitions (new_events 0 ex_heap1 ex_heap2))
   \<and> (\<exists>b. lookup ex_heap1 (buffering_wrapper ex_trainer) = Some (BufferingWrapper 0 b)
         \<and> [\<lparr>traj_id = 0, steps = [(1, 0, 1, ()), (2, 0, 1, ())], terminal = True\<rparr>] =
             queue (replay (new_events 0 ex_heap1 ex_heap2) b))
   \<and> all_transitions (new_events 0 ex_heap1 ex_heap2) =
       [((1, 0, 1, ()), False), ((1, 0, 1, ()), False),
        ((2, 0, 1, ()), True), ((2, 0, 1, ()), False),
        ((3, 0, 1, ()), False), ((3, 0, 1, ()), False)]
   \<and> ex_reward [0, 0] [0, 0] [1, 1] [False, False] = Inr [100, 100]"
  using train_returns_true_rewards[OF ex_init ex_get_env ex_raw lifetime.created ex_train1_pair]
    ex_train1 ex_events1[folded ex_heap2_def]
  by (simp add: ex_reward_def)

theorem wrapping_order_fixed_witness:
  "wrapping ex_trainer 0 ex_heap2 \<and> lookup ex_heap (buffering_wrapper ex_trainer) = None
   \<and> lookup ex_heap (venv ex_trainer) = None"
  using wrapping_order_fixed[OF ex_init ex_get_env ex_life2] .

theorem policy_reads_algorithm_witness:
  "(\<exists>alg. lookup ex_heap2 (algorithm ex_trainer) = Some (Algorithm alg)
           \<and> policy ex_trainer ex_heap2 = (Inr (alg_policy alg), ex_heap2))
   \<and> fst (policy ex_trainer ex_heap1) = Inr 8 \<and> fst (policy ex_trainer ex_heap2) = Inr 9"
proof -
  have 1: "fst (policy ex_trainer ex_heap1) = Inr 8" by code_simp
  have 2: "fst (policy ex_trainer ex_heap2) = Inr 9" unfolding ex_heap2_def by code_simp
  show ?thesis using policy_reads_algorithm[OF ex_init ex_life2] 1 2 by simp
qed

lemma ex_alg1: "lookup ex_heap1 (algorithm ex_trainer) = Some (Algorithm (ex_algorithm (Some 3)))"
  by (simp add: lookup_def ex_heap1_def ex_trainer_def)





lemma ex_learn_fails:
  "learn (algorithm ex_trainer) 3 () (snd (env_reset (venv ex_trainer) ex_heap2)) =
     (Inl (Exception 4), ex_heap3)"
proof -
  have 1: "fst (env_reset (venv ex_trainer) ex_heap2) = Inr [0, 0]"
    unfolding ex_heap2_def by code_simp
  have 2: "fst (learn (algorithm ex_trainer) 3 () (snd (env_reset (venv ex_trainer) ex_heap2))) =
      Inl (Exception 4)"
    unfolding ex_heap2_def by code_simp
  have "snd (train ex_trainer 3 () ex_heap2) =
      snd (learn (algorithm ex_trainer) 3 () (snd (env_reset (venv ex_trainer) ex_heap2)))"
    using 1 2 by (auto simp: train_def split: prod.splits sum.splits)
  then have "snd (learn (algorithm ex_trainer) 3 () (snd (env_reset (venv ex_trainer) ex_heap2)))
      = ex_heap3"
    using ex_train2_pair by simp
  then show ?thesis using 2 by (metis prod.collapse)
qed

lemma ex_pop3:
  "fst (trainer_pop_trajectories ex_trainer ex_heap3) =
     Inr [\<lparr>traj_id = 1, steps = [(1, 0, 1, ()), (2, 0, 1, ())], terminal = True\<rparr>]"
  unfolding ex_heap3_def ex_heap2_def by code_simp

theorem train_propagates_learn_error_witness:
  "train ex_trainer 3 () ex_heap2 = (Inl (Exception 4), ex_heap3)
   \<and> (\<exists>bl. lookup ex_heap3 (buffering_wrapper ex_trainer) = Some (BufferingWrapper 0 bl)
         \<and> trainer_pop_trajectories ex_trainer ex_heap3 =
             (Inr (queue bl),
              ex_heap3[buffering_wrapper ex_trainer := BufferingWrapper 0 (bl\<lparr>queue := []\<rparr>)]))
   \<and> fst (trainer_pop_trajectories ex_trainer ex_heap3) =
       Inr [\<lparr>traj_id = 1, steps = [(1, 0, 1, ()), (2, 0, 1, ())], terminal = True\<rparr>]"
  using train_propagates_learn_error[OF ex_init ex_get_env ex_raw ex_life2 ex_learn_fails] ex_pop3
  by simp

theorem train_resets_learns_drains_witness:
  "\<exists>ob hr br r hl.
     env_reset (venv ex_trainer) ex_heap1 = (Inr ob, hr)
     \<and> lookup hr (buffering_wrapper ex_trainer) = Some (BufferingWrapper 0 br)
     \<and> queue br = [] \<and> (\<forall>i. partial br i = [])
     \<and> run_learner
           (alg_learn (ex_algorithm (Some 3)) (alg_calls (ex_algorithm (Some 3))) 3 ())
           (venv ex_trainer)
           (hr[algorithm ex_trainer :=
                 Algorithm ((ex_algorithm (Some 3))
                    \<lparr>alg_calls := Suc (alg_calls (ex_algorithm (Some 3)))\<rparr>)])
         = (r, hl)
     \<and> (case r of
           Inl x \<Rightarrow> train ex_trainer 3 () ex_heap1 = (Inl x, hl)
         | Inr p \<Rightarrow>
             (\<exists>bl. lookup hl (buffering_wrapper ex_trainer) = Some (BufferingWrapper 0 bl)
                \<and> train ex_trainer 3 () ex_heap1 =
                    (Inr (queue bl),
                     hl[algorithm ex_trainer :=
                          Algorithm ((ex_algorithm (Some 3))
                            \<lparr>alg_calls := Suc (alg_calls (ex_algorithm (Some 3))),
                             alg_policy := p\<rparr>),
                        buffering_wrapper ex_trainer := BufferingWrapper 0 (bl\<lparr>queue := []\<rparr>)])))"
  using train_resets_learns_drains[OF ex_init ex_get_env ex_raw lifetime.created ex_alg1,
      of 3 "()"] .









lemma ex_after1: "done_count (after_last_reset (new_events 0 ex_heap1 ex_heap2)) = 1"
  unfolding ex_heap2_def by code_simp




end
